theory Spec2Isabelle
  imports Main "HOL-Library.AList"
begin

section \<open>Values exchanged with the categorization model\<close>

text \<open>
  The candidate handed to the normalizer is whatever \<^verbatim>\<open>JSON.parse\<close> produced, so it is a
  JSON value. An object is kept as the list of its own properties in the order in which the
  language enumerates them (\<^verbatim>\<open>Object.entries\<close>, \<^verbatim>\<open>Object.keys\<close>, \<^verbatim>\<open>Object.values\<close>,
  \<^verbatim>\<open>JSON.stringify\<close>). Numbers are integers here; no function below looks inside a number.
\<close>

datatype json =
    JNull
  | JBool bool
  | JNum int
  | JStr string
  | JArr "json list"
  | JObj "(string \<times> json) list"

type_synonym str_record = "(string \<times> string) list"
type_synonym category_mapping = "(string \<times> str_record) list"

record bookmark =
  title :: string
  url :: string

subsection \<open>Properties of an object\<close>

definition is_digit :: "char \<Rightarrow> bool" where
  "is_digit c \<longleftrightarrow> (let n = (of_char c :: nat) in 48 \<le> n \<and> n \<le> 57)"

definition digits_value :: "string \<Rightarrow> int" where
  "digits_value ds = foldl (\<lambda>acc d. 10 * acc + (of_char d - 48)) 0 ds"

text \<open>A property name is an array index when it is the canonical numeral of an integer
  from 0 to \<open>2\<^sup>3\<^sup>2 - 2\<close>. The own properties of an object are enumerated with the array
  indices first, by ascending index, and then the other names in the order in which they
  were created.\<close>

definition array_index :: "string \<Rightarrow> int option" where
  "array_index name =
     (if name \<noteq> [] \<and> list_all is_digit name \<and> (name = ''0'' \<or> hd name \<noteq> CHR ''0'') \<and>
         digits_value name \<le> 4294967294
      then Some (digits_value name) else None)"

text \<open>The place of a new property whose name is the array index \<open>n\<close>.\<close>

fun insert_index :: "int \<Rightarrow> string \<Rightarrow> 'v \<Rightarrow> (string \<times> 'v) list \<Rightarrow> (string \<times> 'v) list" where
  "insert_index n name v [] = [(name, v)]"
| "insert_index n name v (e # rest) =
     (case array_index (fst e) of
        Some n' \<Rightarrow> if n' \<le> n then e # insert_index n name v rest else (name, v) # e # rest
      | None \<Rightarrow> (name, v) # e # rest)"

text \<open>Giving an object the own property \<open>name\<close> with the value \<open>v\<close>: a name that is there
  keeps its place and takes the new value; a new name takes its place in the enumeration
  order. This is \<^verbatim>\<open>obj[name] = v\<close> for every name that the object does not inherit as an
  accessor, and what \<^verbatim>\<open>JSON.parse\<close> does with every member of an object.\<close>

definition define_property :: "string \<Rightarrow> 'v \<Rightarrow> (string \<times> 'v) list \<Rightarrow> (string \<times> 'v) list" where
  "define_property name v obj =
     (if name \<in> fst ` set obj then AList.update name v obj
      else (case array_index name of
              Some n \<Rightarrow> insert_index n name v obj
            | None \<Rightarrow> obj @ [(name, v)]))"

text \<open>\<^verbatim>\<open>obj[name] = v\<close> where \<open>obj\<close> was created by \<^verbatim>\<open>{}\<close> and \<open>v\<close> is a string. The one accessor
  that such an object inherits is \<^verbatim>\<open>__proto__\<close>; its setter ignores a value that is neither
  an object nor \<^verbatim>\<open>null\<close>, so the assignment of a string to that name changes nothing.\<close>

definition assign_string :: "string \<Rightarrow> string \<Rightarrow> str_record \<Rightarrow> str_record" where
  "assign_string name v obj = (if name = ''__proto__'' then obj else define_property name v obj)"

section \<open>CategorizationNormalizer (aiService.ts, normalizeCategorizationOutput)\<close>

text \<open>The object \<^verbatim>\<open>result\<close>: its own properties (the categories) and its prototype, which is
  \<^verbatim>\<open>Object.prototype\<close> (\<open>None\<close>) until the assignment \<^verbatim>\<open>result[category] = validMap\<close> is run for
  the category name \<^verbatim>\<open>__proto__\<close>, which makes \<^verbatim>\<open>validMap\<close> the prototype and creates no own
  property. The function either returns \<^verbatim>\<open>result\<close> or throws a \<^verbatim>\<open>TypeError\<close>.\<close>

record normalized =
  categories :: category_mapping
  prototype :: "str_record option"

datatype js_error = TypeError

text \<open>\<^verbatim>\<open>.filter(([title, url]) => typeof title === 'string' && typeof url === 'string')\<close>:
  a key is always a string, so only the value is tested.\<close>

fun string_entries :: "(string \<times> json) list \<Rightarrow> str_record" where
  "string_entries [] = []"
| "string_entries ((t, JStr u) # es) = (t, u) # string_entries es"
| "string_entries (_ # es) = string_entries es"

text \<open>\<^verbatim>\<open>.reduce((acc, [title, url]) => { acc[title] = url; return acc; }, {})\<close>\<close>

definition validMap :: "(string \<times> json) list \<Rightarrow> str_record" where
  "validMap es = fold (\<lambda>(t, u) acc. assign_string t u acc) (string_entries es) []"

text \<open>The body of the \<^verbatim>\<open>forEach\<close> over \<^verbatim>\<open>Object.entries(output)\<close>: a value that is a
  non-null, non-array object contributes its string entries, unless none is left.\<close>

fun accept_category :: "string \<times> json \<Rightarrow> normalized \<Rightarrow> normalized" where
  "accept_category (category, JObj es) result =
     (if length (validMap es) > 0 then
        (if category = ''__proto__'' then result\<lparr>prototype := Some (validMap es)\<rparr>
         else result\<lparr>categories := define_property category (validMap es) (categories result)\<rparr>)
      else result)"
| "accept_category (category, _) result = result"

fun accepted :: "json \<Rightarrow> normalized" where
  "accepted (JObj es) = fold accept_category es \<lparr>categories = [], prototype = None\<rparr>"
| "accepted _ = \<lparr>categories = [], prototype = None\<rparr>"

text \<open>The value of \<^verbatim>\<open>result['Other']\<close>: the own property, an object; or else the property of
  that name inherited from the prototype, a string; or else \<^verbatim>\<open>undefined\<close>.\<close>

datatype other_value = Bucket str_record | Inherited string | Undefined

definition result_other :: "normalized \<Rightarrow> other_value" where
  "result_other result =
     (case map_of (categories result) ''Other'' of
        Some m \<Rightarrow> Bucket m
      | None \<Rightarrow>
          (case prototype result of
             None \<Rightarrow> Undefined
           | Some p \<Rightarrow> (case map_of p ''Other'' of Some u \<Rightarrow> Inherited u | None \<Rightarrow> Undefined)))"

text \<open>\<^verbatim>\<open>if (!result['Other']) result['Other'] = {}\<close>: an object is truthy, a string is
  truthy unless it is empty.\<close>

definition ensure_other :: "normalized \<Rightarrow> normalized" where
  "ensure_other result =
     (let created = result\<lparr>categories := define_property ''Other'' [] (categories result)\<rparr>
      in case result_other result of
           Bucket m \<Rightarrow> result
         | Inherited u \<Rightarrow> if u = [] then created else result
         | Undefined \<Rightarrow> created)"

text \<open>The two presence sets, collected from the own properties (\<^verbatim>\<open>Object.values(result)\<close>);
  \<^verbatim>\<open>if (url)\<close> and \<^verbatim>\<open>if (title)\<close> leave the empty string out.\<close>

definition presentByUrl :: "category_mapping \<Rightarrow> string set" where
  "presentByUrl result = {u \<in> snd ` (\<Union>(c, m) \<in> set result. set m). u \<noteq> []}"

definition presentByTitle :: "category_mapping \<Rightarrow> string set" where
  "presentByTitle result = {t \<in> fst ` (\<Union>(c, m) \<in> set result. set m). t \<noteq> []}"

text \<open>\<^verbatim>\<open>result['Other'][b.title] = b.url\<close>. On the own bucket it is an assignment of a
  string. When \<^verbatim>\<open>result['Other']\<close> is an inherited string the module, being strict code,
  throws a \<^verbatim>\<open>TypeError\<close>, except for the title \<^verbatim>\<open>__proto__\<close>, whose setter returns without
  doing anything.\<close>

definition add_to_other :: "bookmark \<Rightarrow> normalized \<Rightarrow> js_error + normalized" where
  "add_to_other b result =
     (case result_other result of
        Bucket m \<Rightarrow>
          Inr (result\<lparr>categories :=
                 AList.map_entry ''Other'' (assign_string (title b) (url b)) (categories result)\<rparr>)
      | Inherited u \<Rightarrow> if title b = ''__proto__'' then Inr result else Inl TypeError
      | Undefined \<Rightarrow> Inl TypeError)"

text \<open>The loop over the bookmarks; it ends at the first assignment that throws.\<close>

fun add_missing ::
    "string set \<Rightarrow> string set \<Rightarrow> bookmark list \<Rightarrow> normalized \<Rightarrow> js_error + normalized" where
  "add_missing byUrl byTitle [] result = Inr result"
| "add_missing byUrl byTitle (b # bs) result =
     (if url b \<notin> byUrl \<and> title b \<notin> byTitle then
        (case add_to_other b result of
           Inl e \<Rightarrow> Inl e
         | Inr result' \<Rightarrow> add_missing byUrl byTitle bs result')
      else add_missing byUrl byTitle bs result)"

definition normalizeCategorizationOutput :: "json \<Rightarrow> bookmark list \<Rightarrow> js_error + normalized" where
  "normalizeCategorizationOutput output bookmarks =
     (let result = ensure_other (accepted output)
      in add_missing (presentByUrl (categories result)) (presentByTitle (categories result))
           bookmarks result)"

text \<open>The own properties of a returned object read as a candidate again: what
  \<^verbatim>\<open>Object.entries\<close> finds when that object is handed to the normalizer.\<close>

definition mapping_json :: "category_mapping \<Rightarrow> json" where
  "mapping_json r = JObj (map (\<lambda>(c, m). (c, JObj (map (\<lambda>(t, u). (t, JStr u)) m))) r)"

text \<open>How many entries of the mapping, over all categories, are the bookmark \<open>b\<close>.\<close>

definition occurrences :: "bookmark \<Rightarrow> category_mapping \<Rightarrow> nat" where
  "occurrences b r = length (filter (\<lambda>e. e = (title b, url b)) (concat (map snd r)))"




definition put_other :: "bookmark \<Rightarrow> category_mapping \<Rightarrow> category_mapping" where
  "put_other b r = AList.map_entry ''Other'' (assign_string (title b) (url b)) r"

definition put_missing ::
    "string set \<Rightarrow> string set \<Rightarrow> bookmark \<Rightarrow> category_mapping \<Rightarrow> category_mapping" where
  "put_missing byUrl byTitle b r =
     (if url b \<notin> byUrl \<and> title b \<notin> byTitle then put_other b r else r)"

definition precedes :: "string \<Rightarrow> string \<Rightarrow> bool" where
  "precedes k k' \<longleftrightarrow>
     (case array_index k of
        Some n \<Rightarrow> (case array_index k' of Some n' \<Rightarrow> n \<le> n' | None \<Rightarrow> True)
      | None \<Rightarrow> array_index k' = None)"

definition canonical :: "(string \<times> 'v) list \<Rightarrow> bool" where
  "canonical obj \<longleftrightarrow> distinct (map fst obj) \<and> sorted_wrt precedes (map fst obj)"

definition proper :: "(string \<times> 'v) list \<Rightarrow> bool" where
  "proper obj \<longleftrightarrow> canonical obj \<and> ''__proto__'' \<notin> fst ` set obj"


section \<open>The bookmark store\<close>

text \<open>
  Modelled from the spec: the bookmark store is the browser's, not the repository's; the
  repository only has the wrapper class \<^verbatim>\<open>ChromeBookmarkService\<close>, which forwards each call
  and replaces a rejection by its own error. The store is modelled from section 6 of the
  specification (\<^verbatim>\<open>getChildren\<close>, \<^verbatim>\<open>getSubTree\<close>, \<^verbatim>\<open>create\<close>, \<^verbatim>\<open>removeTree\<close>) and, for the
  handlers of the undo hook, \<^verbatim>\<open>move\<close>, \<^verbatim>\<open>update\<close> and \<^verbatim>\<open>remove\<close>: a tree of nodes under the
  two roots the engine may rewrite, \<^verbatim>\<open>'1'\<close> (bookmarks bar) and \<^verbatim>\<open>'2'\<close> (other bookmarks),
  and a counter from which the store assigns the identifier of each node it creates.
  Identifiers are the numbers that the store's decimal strings denote. A node without
  \<^verbatim>\<open>children\<close> has the empty list, as \<^verbatim>\<open>node.children || []\<close> reads it.
\<close>

datatype bnode =
  BNode (node_id: nat) (node_title: string) (node_url: "string option") (node_children: "bnode list")

record store =
  bar :: "bnode list"
  other :: "bnode list"
  next_id :: nat

datatype error =
    Unable_to_retrieve_bookmark_subtree
  | Unable_to_retrieve_bookmark_children
  | Unable_to_create_bookmark
  | Unable_to_update_bookmark
  | Unable_to_move_bookmark
  | Unable_to_remove_bookmark
  | Unable_to_remove_bookmark_folder

fun ids_of :: "bnode \<Rightarrow> nat list" where
  "ids_of (BNode i t u cs) = i # concat (map ids_of cs)"

definition forest_ids :: "bnode list \<Rightarrow> nat list" where
  "forest_ids ns = concat (map ids_of ns)"

definition store_ids :: "store \<Rightarrow> nat list" where
  "store_ids s = forest_ids (bar s) @ forest_ids (other s)"

fun find_node :: "nat \<Rightarrow> bnode list \<Rightarrow> bnode option" where
  "find_node p [] = None"
| "find_node p (BNode i t u cs # rest) =
     (if i = p then Some (BNode i t u cs)
      else (case find_node p cs of Some n \<Rightarrow> Some n | None \<Rightarrow> find_node p rest))"

text \<open>\<open>parent_in p q ns\<close>: the identifier of the parent of node \<open>p\<close>, searched in the
  children \<open>ns\<close> of node \<open>q\<close>.\<close>

fun parent_in :: "nat \<Rightarrow> nat \<Rightarrow> bnode list \<Rightarrow> nat option" where
  "parent_in p q [] = None"
| "parent_in p q (BNode i t u cs # rest) =
     (if i = p then Some q
      else (case parent_in p i cs of Some r \<Rightarrow> Some r | None \<Rightarrow> parent_in p q rest))"

fun modify_children :: "nat \<Rightarrow> (bnode list \<Rightarrow> bnode list) \<Rightarrow> bnode \<Rightarrow> bnode" where
  "modify_children p f (BNode i t u cs) =
     (if i = p then BNode i t u (f cs) else BNode i t u (map (modify_children p f) cs))"

fun modify_node :: "nat \<Rightarrow> (bnode \<Rightarrow> bnode) \<Rightarrow> bnode \<Rightarrow> bnode" where
  "modify_node p f (BNode i t u cs) =
     (if i = p then f (BNode i t u cs) else BNode i t u (map (modify_node p f) cs))"

fun remove_id :: "nat \<Rightarrow> bnode list \<Rightarrow> bnode list" where
  "remove_id p [] = []"
| "remove_id p (BNode i t u cs # rest) =
     (if i = p then remove_id p rest else BNode i t u (remove_id p cs) # remove_id p rest)"

definition has_node :: "nat \<Rightarrow> store \<Rightarrow> bool" where
  "has_node p s \<longleftrightarrow> p = 1 \<or> p = 2 \<or> p \<in> set (store_ids s)"

definition children_of :: "nat \<Rightarrow> store \<Rightarrow> bnode list option" where
  "children_of p s =
     (if p = 1 then Some (bar s) else if p = 2 then Some (other s)
      else map_option node_children (find_node p (bar s @ other s)))"

definition on_children :: "nat \<Rightarrow> (bnode list \<Rightarrow> bnode list) \<Rightarrow> store \<Rightarrow> store" where
  "on_children p f s =
     (if p = 1 then s\<lparr>bar := f (bar s)\<rparr>
      else if p = 2 then s\<lparr>other := f (other s)\<rparr>
      else s\<lparr>bar := map (modify_children p f) (bar s),
             other := map (modify_children p f) (other s)\<rparr>)"

definition detach :: "nat \<Rightarrow> store \<Rightarrow> store" where
  "detach p s = s\<lparr>bar := remove_id p (bar s), other := remove_id p (other s)\<rparr>"

subsection \<open>ChromeBookmarkService (chromeBookmarkService.ts)\<close>

text \<open>Each operation returns the store it leaves behind together with its result; a
  rejected call leaves the store as it was and yields the wrapper's error.\<close>

definition getSubTree :: "nat \<Rightarrow> store \<Rightarrow> error + bnode list" where
  "getSubTree i s =
     (if i = 1 then Inr [BNode 1 ''Bookmarks bar'' None (bar s)]
      else if i = 2 then Inr [BNode 2 ''Other bookmarks'' None (other s)]
      else (case find_node i (bar s @ other s) of
              Some n \<Rightarrow> Inr [n]
            | None \<Rightarrow> Inl Unable_to_retrieve_bookmark_subtree))"

definition getChildren :: "nat \<Rightarrow> store \<Rightarrow> error + bnode list" where
  "getChildren parentId s =
     (case children_of parentId s of
        Some cs \<Rightarrow> Inr cs
      | None \<Rightarrow> Inl Unable_to_retrieve_bookmark_children)"

text \<open>\<^verbatim>\<open>createBookmark({ parentId, title, url?, index? })\<close>: the new node gets the next
  identifier, keeps the title and the url it was given, and goes to the end of its parent's
  children, or to position \<open>index\<close>. The call is rejected when the parent does not exist
  or the position is past the end.\<close>

definition createBookmark ::
    "nat \<Rightarrow> string \<Rightarrow> string option \<Rightarrow> nat option \<Rightarrow> store \<Rightarrow> (error + bnode) \<times> store" where
  "createBookmark parentId t u index s =
     (case children_of parentId s of
        None \<Rightarrow> (Inl Unable_to_create_bookmark, s)
      | Some cs \<Rightarrow>
          (let created = BNode (next_id s) t u [];
               put = (\<lambda>f. (Inr created, (on_children parentId f s)\<lparr>next_id := Suc (next_id s)\<rparr>))
           in case index of
                None \<Rightarrow> put (\<lambda>cs. cs @ [created])
              | Some k \<Rightarrow>
                  (if length cs < k then (Inl Unable_to_create_bookmark, s)
                   else put (\<lambda>cs. take k cs @ created # drop k cs))))"

definition updateBookmark ::
    "nat \<Rightarrow> string option \<Rightarrow> string option \<Rightarrow> store \<Rightarrow> error option \<times> store" where
  "updateBookmark i new_title new_url s =
     (if i \<in> set (store_ids s) then
        (let f = (\<lambda>n. BNode (node_id n)
                    (case new_title of Some t \<Rightarrow> t | None \<Rightarrow> node_title n)
                    (case new_url of Some u \<Rightarrow> Some u | None \<Rightarrow> node_url n)
                    (node_children n))
         in (None, s\<lparr>bar := map (modify_node i f) (bar s), other := map (modify_node i f) (other s)\<rparr>))
      else (Some Unable_to_update_bookmark, s))"

text \<open>\<^verbatim>\<open>moveBookmark(id, { parentId?, index? })\<close>: the node is taken out with its subtree and
  put under the destination (its own parent when none is given) at \<open>index\<close>, or at the
  end.\<close>

definition moveBookmark ::
    "nat \<Rightarrow> nat option \<Rightarrow> nat option \<Rightarrow> store \<Rightarrow> error option \<times> store" where
  "moveBookmark i parentId index s =
     (case find_node i (bar s @ other s) of
        None \<Rightarrow> (Some Unable_to_move_bookmark, s)
      | Some n \<Rightarrow>
          (let dest = (case parentId of
                         Some q \<Rightarrow> Some q
                       | None \<Rightarrow> (case parent_in i 1 (bar s) of
                                    Some q \<Rightarrow> Some q
                                  | None \<Rightarrow> parent_in i 2 (other s)))
           in case dest of
                None \<Rightarrow> (Some Unable_to_move_bookmark, s)
              | Some q \<Rightarrow>
                  (case children_of q (detach i s) of
                     None \<Rightarrow> (Some Unable_to_move_bookmark, s)
                   | Some cs \<Rightarrow>
                       (case index of
                          None \<Rightarrow> (None, on_children q (\<lambda>cs. cs @ [n]) (detach i s))
                        | Some k \<Rightarrow>
                            (if length cs < k then (Some Unable_to_move_bookmark, s)
                             else (None, on_children q (\<lambda>cs. take k cs @ n # drop k cs)
                                           (detach i s)))))))"

text \<open>\<^verbatim>\<open>removeBookmark(id)\<close> removes a bookmark or an empty folder;
  \<^verbatim>\<open>removeBookmarkTree(id)\<close> removes a node with everything below it.\<close>

definition removeBookmark :: "nat \<Rightarrow> store \<Rightarrow> error option \<times> store" where
  "removeBookmark i s =
     (case find_node i (bar s @ other s) of
        None \<Rightarrow> (Some Unable_to_remove_bookmark, s)
      | Some n \<Rightarrow>
          (if node_children n \<noteq> [] then (Some Unable_to_remove_bookmark, s)
           else (None, detach i s)))"

definition removeBookmarkTree :: "nat \<Rightarrow> store \<Rightarrow> error option \<times> store" where
  "removeBookmarkTree i s =
     (if i \<in> set (store_ids s) then (None, detach i s)
      else (Some Unable_to_remove_bookmark_folder, s))"

text \<open>\<^verbatim>\<open>for (const x of xs) { await f(x) }\<close>: the first rejection ends the loop.\<close>

fun for_each :: "('a \<Rightarrow> store \<Rightarrow> error option \<times> store) \<Rightarrow> 'a list \<Rightarrow> store \<Rightarrow> error option \<times> store" where
  "for_each f [] s = (None, s)"
| "for_each f (x # xs) s =
     (case f x s of
        (Some e, s1) \<Rightarrow> (Some e, s1)
      | (None, s1) \<Rightarrow> for_each f xs s1)"

section \<open>TreeSnapshot and ReorganizationApplier (SessionsTab.tsx)\<close>

text \<open>\<^verbatim>\<open>type SavedNode = { title: string; url?: string; children?: SavedNode[] }\<close>. Every
  \<^verbatim>\<open>SavedNode\<close> comes from \<^verbatim>\<open>snapshotNode\<close>, which always sets \<^verbatim>\<open>children\<close>, and its only
  reader tests \<^verbatim>\<open>n.children && n.children.length > 0\<close>; so the field is a list here.\<close>

datatype SavedNode =
  SavedNode (saved_title: string) (saved_url: "string option") (saved_children: "SavedNode list")

fun snapshotNode :: "bnode \<Rightarrow> SavedNode" where
  "snapshotNode (BNode i t u cs) = SavedNode t u (map snapshotNode cs)"

definition snapshotChildren :: "nat \<Rightarrow> store \<Rightarrow> error + SavedNode list" where
  "snapshotChildren rootId s =
     (case getSubTree rootId s of
        Inl e \<Rightarrow> Inl e
      | Inr subtree \<Rightarrow>
          (let children = (case subtree of [] \<Rightarrow> [] | root # _ \<Rightarrow> node_children root)
           in Inr (map snapshotNode children)))"

definition deleteAllChildren :: "nat \<Rightarrow> store \<Rightarrow> error option \<times> store" where
  "deleteAllChildren rootId s =
     (case getChildren rootId s of
        Inl e \<Rightarrow> (Some e, s)
      | Inr children \<Rightarrow> for_each (\<lambda>child. removeBookmarkTree (node_id child)) children s)"

text \<open>\<^verbatim>\<open>if (n.url)\<close>: a url that is absent or the empty string is falsy.\<close>

fun truthy :: "string option \<Rightarrow> bool" where
  "truthy None = False"
| "truthy (Some u) = (u \<noteq> [])"

fun restoreChildren :: "nat \<Rightarrow> SavedNode list \<Rightarrow> store \<Rightarrow> error option \<times> store" where
  "restoreChildren parentId [] s = (None, s)"
| "restoreChildren parentId (SavedNode t u cs # ns) s =
     (if truthy u then
        (case createBookmark parentId t u None s of
           (Inl e, s1) \<Rightarrow> (Some e, s1)
         | (Inr created, s1) \<Rightarrow> restoreChildren parentId ns s1)
      else
        (case createBookmark parentId t None None s of
           (Inl e, s1) \<Rightarrow> (Some e, s1)
         | (Inr folder, s1) \<Rightarrow>
             (if cs \<noteq> [] then
                (case restoreChildren (node_id folder) cs s1 of
                   (Some e, s2) \<Rightarrow> (Some e, s2)
                 | (None, s2) \<Rightarrow> restoreChildren parentId ns s2)
              else restoreChildren parentId ns s1)))"

text \<open>The third step of \<^verbatim>\<open>handleApplyChanges\<close>: one folder per category under \<^verbatim>\<open>'1'\<close>, one
  bookmark per entry under that folder.\<close>

definition create_entries :: "nat \<Rightarrow> str_record \<Rightarrow> store \<Rightarrow> error option \<times> store" where
  "create_entries folderId bookmarks s =
     for_each (\<lambda>(t, u) s. case createBookmark folderId t (Some u) None s of
                             (Inl e, s1) \<Rightarrow> (Some e, s1)
                           | (Inr created, s1) \<Rightarrow> (None, s1)) bookmarks s"

definition create_category :: "string \<times> str_record \<Rightarrow> store \<Rightarrow> error option \<times> store" where
  "create_category = (\<lambda>(category, bookmarks) s.
     case createBookmark 1 category None None s of
       (Inl e, s1) \<Rightarrow> (Some e, s1)
     | (Inr folder, s1) \<Rightarrow> create_entries (node_id folder) bookmarks s1)"

definition recreate :: "category_mapping \<Rightarrow> store \<Rightarrow> error option \<times> store" where
  "recreate structure s = for_each create_category structure s"

text \<open>
  The component's state, as far as the two handlers read or write it, with the store the
  handlers act on. \<^verbatim>\<open>Promise.all\<close> over the two roots is taken in the order of its arguments:
  the two calls work on the subtrees of different roots, so on a store whose identifiers
  are pairwise different every interleaving of their steps ends in the same store. When one
  of the two calls rejects, the other keeps running in the source while the handler is
  already in its \<^verbatim>\<open>catch\<close>; the model stops at the rejection, and nothing below is said about
  the store after a run that failed. \<^verbatim>\<open>buildTreeStructure\<close> re-reads the tree for display
  and resets \<^verbatim>\<open>bookmarkError\<close>.
\<close>

record backup =
  backup_bar :: "SavedNode list"
  backup_other :: "SavedNode list"

record sessions =
  aiCategorizedBookmarks :: "category_mapping option"
  previewCategories :: "category_mapping option"
  bookmarkBackup :: "backup option"
  hasAppliedChanges :: bool
  showPreview :: bool
  bookmarkError :: "string option"

text \<open>\<^verbatim>\<open>previewCategories || aiCategorizedBookmarks!\<close>\<close>

definition structure_for :: "sessions \<Rightarrow> category_mapping option" where
  "structure_for ui =
     (case previewCategories ui of Some p \<Rightarrow> Some p | None \<Rightarrow> aiCategorizedBookmarks ui)"

definition clear_roots :: "store \<Rightarrow> error option \<times> store" where
  "clear_roots s =
     (case deleteAllChildren 1 s of
        (Some e, s1) \<Rightarrow> (Some e, s1)
      | (None, s1) \<Rightarrow> deleteAllChildren 2 s1)"

definition handleApplyChanges :: "sessions \<times> store \<Rightarrow> sessions \<times> store" where
  "handleApplyChanges = (\<lambda>(ui, s).
     case structure_for ui of
       None \<Rightarrow> (ui, s)
     | Some structure \<Rightarrow>
         (let failed = (\<lambda>ui. ui\<lparr>bookmarkError := Some ''Failed to apply bookmark reorganization''\<rparr>)
          in case snapshotChildren 1 s of
               Inl e \<Rightarrow> (failed ui, s)
             | Inr barBackup \<Rightarrow>
                 (case snapshotChildren 2 s of
                    Inl e \<Rightarrow> (failed ui, s)
                  | Inr otherBackup \<Rightarrow>
                      (let ui1 = ui\<lparr>bookmarkBackup :=
                                      Some \<lparr>backup_bar = barBackup, backup_other = otherBackup\<rparr>\<rparr>
                       in case clear_roots s of
                            (Some e, s1) \<Rightarrow> (failed ui1, s1)
                          | (None, s1) \<Rightarrow>
                              (case recreate structure s1 of
                                 (Some e, s2) \<Rightarrow> (failed ui1, s2)
                               | (None, s2) \<Rightarrow>
                                   (ui1\<lparr>hasAppliedChanges := True, showPreview := False,
                                        bookmarkError := None\<rparr>, s2))))))"

definition handleUndoChanges :: "sessions \<times> store \<Rightarrow> sessions \<times> store" where
  "handleUndoChanges = (\<lambda>(ui, s).
     case bookmarkBackup ui of
       None \<Rightarrow> (ui, s)
     | Some b \<Rightarrow>
         (case clear_roots s of
            (Some e, s1) \<Rightarrow> (ui, s1)
          | (None, s1) \<Rightarrow>
              (case restoreChildren 1 (backup_bar b) s1 of
                 (Some e, s2) \<Rightarrow> (ui, s2)
               | (None, s2) \<Rightarrow>
                   (case restoreChildren 2 (backup_other b) s2 of
                      (Some e, s3) \<Rightarrow> (ui, s3)
                    | (None, s3) \<Rightarrow>
                        (ui\<lparr>hasAppliedChanges := False, bookmarkBackup := None,
                            bookmarkError := None\<rparr>, s3)))))"

text \<open>What the store holds under the two roots, without identifiers: titles, urls, order
  and nesting.\<close>

definition structure_of :: "store \<Rightarrow> SavedNode list \<times> SavedNode list" where
  "structure_of s = (map snapshotNode (bar s), map snapshotNode (other s))"

text \<open>
  Auxiliary notions for the proofs about the applier. \<open>materialize k ns\<close> is the forest that
  restoring the saved nodes \<open>ns\<close> creates when the store's counter is at \<open>k\<close>, and
  \<open>created_count ns\<close> is the number of nodes in it. A saved node is well formed when it is a
  bookmark (a non-empty url and no children) or a folder (no url); \<open>store_ok\<close> collects
  what the store guarantees: identifiers are pairwise different and were assigned from the
  counter, the counter is past the two roots, and every node is well formed.
\<close>

fun created_count :: "SavedNode list \<Rightarrow> nat" where
  "created_count [] = 0"
| "created_count (SavedNode t u cs # ns) =
     (if truthy u then 1 else 1 + created_count cs) + created_count ns"

fun materialize :: "nat \<Rightarrow> SavedNode list \<Rightarrow> bnode list" where
  "materialize k [] = []"
| "materialize k (SavedNode t u cs # ns) =
     (if truthy u then BNode k t u [] # materialize (Suc k) ns
      else BNode k t None (materialize (Suc k) cs) # materialize (Suc k + created_count cs) ns)"

fun well_formed :: "SavedNode \<Rightarrow> bool" where
  "well_formed (SavedNode t u cs) =
     (case u of Some v \<Rightarrow> v \<noteq> [] \<and> cs = [] | None \<Rightarrow> (\<forall>c \<in> set cs. well_formed c))"

definition store_ok :: "store \<Rightarrow> bool" where
  "store_ok s \<longleftrightarrow>
     distinct (store_ids s) \<and> (\<forall>i \<in> set (store_ids s). i < next_id s) \<and> 2 < next_id s \<and>
     (\<forall>n \<in> set (bar s @ other s). well_formed (snapshotNode n))"

text \<open>The saved forest that a category mapping stands for, and the nodes that recreating
  the entries of one category creates.\<close>

definition category_saved :: "string \<times> str_record \<Rightarrow> SavedNode" where
  "category_saved = (\<lambda>(c, m). SavedNode c None (map (\<lambda>(t, u). SavedNode t (Some u) []) m))"

fun entry_nodes :: "nat \<Rightarrow> str_record \<Rightarrow> bnode list" where
  "entry_nodes k [] = []"
| "entry_nodes k ((t, u) # es) = BNode k t (Some u) [] # entry_nodes (Suc k) es"

fun category_nodes :: "nat \<Rightarrow> category_mapping \<Rightarrow> bnode list" where
  "category_nodes k [] = []"
| "category_nodes k ((c, m) # rest) =
     BNode k c None (entry_nodes (Suc k) m) # category_nodes (Suc k + length m) rest"

definition ids_below :: "store \<Rightarrow> bool" where
  "ids_below s \<longleftrightarrow> (\<forall>i \<in> set (store_ids s). i < next_id s) \<and> 2 < next_id s"

fun category_count :: "category_mapping \<Rightarrow> nat" where
  "category_count [] = 0"
| "category_count ((c, m) # rest) = Suc (length m) + category_count rest"

text \<open>A small store and component state for the concrete instances below: a bookmark and
  a folder (holding a bookmark and an empty folder) on the bar, one bookmark under the
  other root, and the mapping of the specification's example scenario.\<close>

definition example_store :: store where
  "example_store =
     \<lparr>bar = [BNode 5 ''A'' (Some ''http://a'') [],
             BNode 6 ''F'' None [BNode 7 ''B'' (Some ''http://b'') [], BNode 9 ''G'' None []]],
      other = [BNode 8 ''C'' (Some ''http://c'') []],
      next_id = 10\<rparr>"


definition example_mapping :: category_mapping where
  "example_mapping = [(''Cat1'', [(''A'', ''http://a'')]), (''Other'', [(''B'', ''http://b'')])]"

definition example_sessions :: sessions where
  "example_sessions =
     \<lparr>aiCategorizedBookmarks = Some example_mapping, previewCategories = None,
      bookmarkBackup = None, hasAppliedChanges = False, showPreview = True,
      bookmarkError = None\<rparr>"

section \<open>UndoRedoStack (the hook useUndoRedo)\<close>

text \<open>
  \<^verbatim>\<open>previousState\<close> and \<^verbatim>\<open>newState\<close> are untyped in the source; they are given the fields the
  handlers read. A field the handlers guard with \<^verbatim>\<open>?.\<close> or \<^verbatim>\<open>|| []\<close> is optional. The frame's
  \<^verbatim>\<open>id\<close>, \<^verbatim>\<open>type\<close> and \<^verbatim>\<open>timestamp\<close> are \<open>frame_id\<close>, \<open>frame_type\<close> and a number of milliseconds.
\<close>

datatype frame_type = Reorganize | Move | Delete | Create | Update

record bookmark_info =
  info_id :: nat
  info_parentId :: "nat option"
  info_index :: "nat option"
  info_title :: string
  info_url :: "string option"

record frame_state =
  bookmarks :: "bookmark_info list option"
  deletedBookmarks :: "bookmark_info list option"
  createdBookmarks :: "bookmark_info list option"

record UndoFrame =
  frame_id :: string
  frame_type :: frame_type
  timestamp :: nat
  description :: string
  previousState :: frame_state
  newState :: frame_state
  affectedBookmarks :: "nat list"

record history =
  undoStack :: "UndoFrame list"
  redoStack :: "UndoFrame list"

definition canUndo :: "history \<Rightarrow> bool" where
  "canUndo h \<longleftrightarrow> length (undoStack h) > 0"

definition canRedo :: "history \<Rightarrow> bool" where
  "canRedo h \<longleftrightarrow> length (redoStack h) > 0"

text \<open>\<^verbatim>\<open>addUndoFrame\<close>: the identifier and the time are generated by the caller's clock and
  random source, so they are arguments here.
  \<^verbatim>\<open>setUndoStack(prev => [newFrame, ...prev.slice(0, 49)]); setRedoStack([])\<close>\<close>

definition addUndoFrame :: "string \<Rightarrow> nat \<Rightarrow> UndoFrame \<Rightarrow> history \<Rightarrow> history" where
  "addUndoFrame generated now frame h =
     (let newFrame = frame\<lparr>frame_id := generated, timestamp := now\<rparr>
      in h\<lparr>undoStack := newFrame # take 49 (undoStack h), redoStack := []\<rparr>)"

definition clearHistory :: "history \<Rightarrow> history" where
  "clearHistory h = h\<lparr>undoStack := [], redoStack := []\<rparr>"

subsection \<open>The handlers\<close>

text \<open>\<^verbatim>\<open>state.bookmarks?.find(b => b.id === bookmarkId)\<close>, then \<^verbatim>\<open>moveBookmark\<close> when found: the
  body shared by the undo and redo handlers of \<^verbatim>\<open>reorganize\<close> and \<^verbatim>\<open>move\<close>.\<close>

definition move_to_recorded :: "frame_state \<Rightarrow> nat \<Rightarrow> store \<Rightarrow> error option \<times> store" where
  "move_to_recorded st bookmarkId s =
     (case find (\<lambda>b. info_id b = bookmarkId) (case bookmarks st of None \<Rightarrow> [] | Some bs \<Rightarrow> bs) of
        None \<Rightarrow> (None, s)
      | Some bookmark \<Rightarrow> moveBookmark bookmarkId (info_parentId bookmark) (info_index bookmark) s)"

text \<open>\<^verbatim>\<open>createBookmark({ parentId, title, url, index })\<close> from a recorded bookmark; the store puts
  a node without \<^verbatim>\<open>parentId\<close> under the other-bookmarks root.\<close>

definition create_recorded :: "bookmark_info \<Rightarrow> store \<Rightarrow> error option \<times> store" where
  "create_recorded bookmark s =
     (case createBookmark (case info_parentId bookmark of Some p \<Rightarrow> p | None \<Rightarrow> 2)
             (info_title bookmark) (info_url bookmark) (info_index bookmark) s of
        (Inl e, s1) \<Rightarrow> (Some e, s1)
      | (Inr created, s1) \<Rightarrow> (None, s1))"

definition update_recorded :: "bookmark_info \<Rightarrow> store \<Rightarrow> error option \<times> store" where
  "update_recorded bookmark s =
     updateBookmark (info_id bookmark) (Some (info_title bookmark)) (info_url bookmark) s"

definition applyReorganizeUndo :: "UndoFrame \<Rightarrow> store \<Rightarrow> error option \<times> store" where
  "applyReorganizeUndo frame s =
     for_each (move_to_recorded (previousState frame)) (affectedBookmarks frame) s"

definition applyMoveUndo :: "UndoFrame \<Rightarrow> store \<Rightarrow> error option \<times> store" where
  "applyMoveUndo frame s =
     for_each (move_to_recorded (previousState frame)) (affectedBookmarks frame) s"

definition applyDeleteUndo :: "UndoFrame \<Rightarrow> store \<Rightarrow> error option \<times> store" where
  "applyDeleteUndo frame s =
     for_each create_recorded
       (case deletedBookmarks (newState frame) of None \<Rightarrow> [] | Some bs \<Rightarrow> bs) s"

definition applyCreateUndo :: "UndoFrame \<Rightarrow> store \<Rightarrow> error option \<times> store" where
  "applyCreateUndo frame s = for_each removeBookmark (affectedBookmarks frame) s"

definition applyUpdateUndo :: "UndoFrame \<Rightarrow> store \<Rightarrow> error option \<times> store" where
  "applyUpdateUndo frame s =
     for_each update_recorded
       (case bookmarks (previousState frame) of None \<Rightarrow> [] | Some bs \<Rightarrow> bs) s"

definition applyReorganizeRedo :: "UndoFrame \<Rightarrow> store \<Rightarrow> error option \<times> store" where
  "applyReorganizeRedo frame s =
     for_each (move_to_recorded (newState frame)) (affectedBookmarks frame) s"

definition applyMoveRedo :: "UndoFrame \<Rightarrow> store \<Rightarrow> error option \<times> store" where
  "applyMoveRedo frame s =
     for_each (move_to_recorded (newState frame)) (affectedBookmarks frame) s"

definition applyDeleteRedo :: "UndoFrame \<Rightarrow> store \<Rightarrow> error option \<times> store" where
  "applyDeleteRedo frame s = for_each removeBookmark (affectedBookmarks frame) s"

definition applyCreateRedo :: "UndoFrame \<Rightarrow> store \<Rightarrow> error option \<times> store" where
  "applyCreateRedo frame s =
     for_each create_recorded
       (case createdBookmarks (newState frame) of None \<Rightarrow> [] | Some bs \<Rightarrow> bs) s"

definition applyUpdateRedo :: "UndoFrame \<Rightarrow> store \<Rightarrow> error option \<times> store" where
  "applyUpdateRedo frame s =
     for_each update_recorded
       (case bookmarks (newState frame) of None \<Rightarrow> [] | Some bs \<Rightarrow> bs) s"

definition applyUndoFrame :: "UndoFrame \<Rightarrow> store \<Rightarrow> error option \<times> store" where
  "applyUndoFrame frame s =
     (case frame_type frame of
        Reorganize \<Rightarrow> applyReorganizeUndo frame s
      | Move \<Rightarrow> applyMoveUndo frame s
      | Delete \<Rightarrow> applyDeleteUndo frame s
      | Create \<Rightarrow> applyCreateUndo frame s
      | Update \<Rightarrow> applyUpdateUndo frame s)"

definition applyRedoFrame :: "UndoFrame \<Rightarrow> store \<Rightarrow> error option \<times> store" where
  "applyRedoFrame frame s =
     (case frame_type frame of
        Reorganize \<Rightarrow> applyReorganizeRedo frame s
      | Move \<Rightarrow> applyMoveRedo frame s
      | Delete \<Rightarrow> applyDeleteRedo frame s
      | Create \<Rightarrow> applyCreateRedo frame s
      | Update \<Rightarrow> applyUpdateRedo frame s)"

subsection \<open>performUndo and performRedo, run to completion\<close>

text \<open>
  One invocation with nothing else in between. \<^verbatim>\<open>undoStack[0]\<close> is read only behind
  \<^verbatim>\<open>if (!canUndo) return\<close>. A handler that throws leaves the \<^verbatim>\<open>try\<close> block before the two
  state updates; the \<^verbatim>\<open>catch\<close> only logs. What the handler did to the store before it threw
  stays done.
\<close>

definition performUndo :: "history \<times> store \<Rightarrow> history \<times> store" where
  "performUndo = (\<lambda>(h, s).
     if \<not> canUndo h then (h, s)
     else (case undoStack h of
             [] \<Rightarrow> (h, s)
           | frameToUndo # _ \<Rightarrow>
               (case applyUndoFrame frameToUndo s of
                  (Some e, s1) \<Rightarrow> (h, s1)
                | (None, s1) \<Rightarrow>
                    (h\<lparr>undoStack := drop 1 (undoStack h),
                       redoStack := frameToUndo # redoStack h\<rparr>, s1))))"

definition performRedo :: "history \<times> store \<Rightarrow> history \<times> store" where
  "performRedo = (\<lambda>(h, s).
     if \<not> canRedo h then (h, s)
     else (case redoStack h of
             [] \<Rightarrow> (h, s)
           | frameToRedo # _ \<Rightarrow>
               (case applyRedoFrame frameToRedo s of
                  (Some e, s1) \<Rightarrow> (h, s1)
                | (None, s1) \<Rightarrow>
                    (h\<lparr>redoStack := drop 1 (redoStack h),
                       undoStack := frameToRedo # undoStack h\<rparr>, s1))))"

text \<open>Any later sequence of undo and redo invocations.\<close>

datatype invocation = Undo | Redo

fun invoke :: "invocation \<Rightarrow> history \<times> store \<Rightarrow> history \<times> store" where
  "invoke Undo st = performUndo st"
| "invoke Redo st = performRedo st"

definition frames_held :: "history \<times> store \<Rightarrow> UndoFrame set" where
  "frames_held st = set (undoStack (fst st)) \<union> set (redoStack (fst st))"

subsection \<open>Invocations that overlap\<close>

text \<open>
  \<^verbatim>\<open>performUndo\<close> and \<^verbatim>\<open>performRedo\<close> are asynchronous: an invocation runs up to
  \<^verbatim>\<open>await applyUndoFrame(frameToUndo)\<close>, and the rest of its body runs when the handler's
  promise settles; other invocations may start in between. \<open>pending\<close> lists the
  invocations whose handler has not settled yet, each with the frame it read when it
  started. The hook keeps no such list: it is what an observer of the running program
  sees. The callbacks read the stacks as last rendered; a render follows every state
  update, so that is the current state.
\<close>

datatype task = Undoing UndoFrame | Redoing UndoFrame

record hook = history +
  pending :: "task list"

definition start_performUndo :: "hook \<Rightarrow> hook" where
  "start_performUndo h =
     (case undoStack h of
        [] \<Rightarrow> h
      | frameToUndo # _ \<Rightarrow> h\<lparr>pending := pending h @ [Undoing frameToUndo]\<rparr>)"

definition start_performRedo :: "hook \<Rightarrow> hook" where
  "start_performRedo h =
     (case redoStack h of
        [] \<Rightarrow> h
      | frameToRedo # _ \<Rightarrow> h\<lparr>pending := pending h @ [Redoing frameToRedo]\<rparr>)"

text \<open>The handler of the pending invocation at position \<open>i\<close> settles: fulfilled, the two
  functional state updates run; rejected, nothing but the log.\<close>

definition settle :: "nat \<Rightarrow> bool \<Rightarrow> hook \<Rightarrow> hook" where
  "settle i fulfilled h =
     (if length (pending h) \<le> i then h
      else (let h1 = h\<lparr>pending := take i (pending h) @ drop (Suc i) (pending h)\<rparr>
            in if \<not> fulfilled then h1
               else (case pending h ! i of
                       Undoing f \<Rightarrow> h1\<lparr>undoStack := drop 1 (undoStack h1),
                                        redoStack := f # redoStack h1\<rparr>
                     | Redoing f \<Rightarrow> h1\<lparr>redoStack := drop 1 (redoStack h1),
                                        undoStack := f # undoStack h1\<rparr>)))"

text \<open>Frames and stacks for the concrete instances: a frame that records where the two
  bookmarks created by applying the example mapping to the example store are, and a
  frame about a bookmark the example store does not have.\<close>

definition empty_state :: frame_state where
  "empty_state = \<lparr>bookmarks = None, deletedBookmarks = None, createdBookmarks = None\<rparr>"

definition applied_frame :: UndoFrame where
  "applied_frame =
     \<lparr>frame_id = ''undo_1'', frame_type = Reorganize, timestamp = 0,
      description = ''Apply AI categorization'',
      previousState = empty_state,
      newState = empty_state\<lparr>bookmarks := Some
        [\<lparr>info_id = 11, info_parentId = Some 10, info_index = Some 0,
          info_title = ''A'', info_url = Some ''http://a''\<rparr>,
         \<lparr>info_id = 13, info_parentId = Some 12, info_index = Some 0,
          info_title = ''B'', info_url = Some ''http://b''\<rparr>]\<rparr>,
      affectedBookmarks = [11, 13]\<rparr>"

definition stale_frame :: UndoFrame where
  "stale_frame =
     \<lparr>frame_id = ''undo_2'', frame_type = Move, timestamp = 1,
      description = ''Move bookmark'',
      previousState = empty_state\<lparr>bookmarks := Some
        [\<lparr>info_id = 77, info_parentId = Some 1, info_index = Some 0,
          info_title = ''X'', info_url = Some ''http://x''\<rparr>]\<rparr>,
      newState = empty_state\<lparr>bookmarks := Some
        [\<lparr>info_id = 77, info_parentId = Some 2, info_index = Some 0,
          info_title = ''X'', info_url = Some ''http://x''\<rparr>]\<rparr>,
      affectedBookmarks = [77]\<rparr>"

section \<open>ResponseSanitizer (aiService.ts, extractJsonObject)\<close>

text \<open>
  A text is a list of characters; \<^typ>\<open>char\<close> has 256 values, so a text here is one whose
  code units are below 256. The white space of \<^verbatim>\<open>\s\<close> and of \<^verbatim>\<open>trim()\<close> in that range is tab,
  line feed, vertical tab, form feed, carriage return, space and the no-break space.
\<close>

definition is_space :: "char \<Rightarrow> bool" where
  "is_space c \<longleftrightarrow> c \<in> set [CHR 0x09, CHR 0x0A, CHR 0x0B, CHR 0x0C, CHR 0x0D, CHR 0x20, CHR 0xA0]"

definition trim :: "string \<Rightarrow> string" where
  "trim s = rev (dropWhile is_space (rev (dropWhile is_space s)))"

definition ascii_lower :: "char \<Rightarrow> char" where
  "ascii_lower c =
     (let n = (of_char c :: nat) in if 65 \<le> n \<and> n \<le> 90 then char_of (n + 32) else c)"

definition fence :: string where
  "fence = [CHR 0x60, CHR 0x60, CHR 0x60]"

text \<open>\<^verbatim>\<open>json\<close> under the flag \<^verbatim>\<open>i\<close>.\<close>

definition is_json_word :: "string \<Rightarrow> bool" where
  "is_json_word w \<longleftrightarrow> map ascii_lower w = ''json''"

text \<open>The position of the first occurrence of \<open>sub\<close> in \<open>s\<close> (\<^verbatim>\<open>indexOf\<close>), and of the last
  occurrence of a character (\<^verbatim>\<open>lastIndexOf\<close>); \<open>None\<close> is the source's \<^verbatim>\<open>-1\<close>.\<close>

fun index_of :: "string \<Rightarrow> string \<Rightarrow> nat option" where
  "index_of sub [] = (if sub = [] then Some 0 else None)"
| "index_of sub (c # cs) =
     (if take (length sub) (c # cs) = sub then Some 0 else map_option Suc (index_of sub cs))"

fun last_index_of :: "char \<Rightarrow> string \<Rightarrow> nat option" where
  "last_index_of x [] = None"
| "last_index_of x (c # cs) =
     (case last_index_of x cs of
        Some i \<Rightarrow> Some (Suc i)
      | None \<Rightarrow> (if c = x then Some 0 else None))"

text \<open>\<^verbatim>\<open>s.slice(a, b)\<close> for \<open>0 \<le> a\<close>.\<close>

definition slice :: "nat \<Rightarrow> nat \<Rightarrow> string \<Rightarrow> string" where
  "slice a b s = take (b - a) (drop a s)"

text \<open>\<^verbatim>\<open>.replace(/^```json\s*/i, '')\<close>\<close>

definition strip_leading_fence :: "string \<Rightarrow> string" where
  "strip_leading_fence s =
     (if take 3 s = fence \<and> is_json_word (take 4 (drop 3 s))
      then dropWhile is_space (drop 7 s) else s)"

text \<open>\<^verbatim>\<open>.replace(/```\s*$/i, '')\<close>: a match ends at the end of the text, so it is the last
  three characters before the trailing white space, when they are a fence.\<close>

definition strip_trailing_fence :: "string \<Rightarrow> string" where
  "strip_trailing_fence s =
     (let t = rev (dropWhile is_space (rev s))
      in if 3 \<le> length t \<and> drop (length t - 3) t = fence then take (length t - 3) t else s)"

text \<open>\<^verbatim>\<open>cleaned.match(/```(?:json)?\s*([\s\S]*?)```/i)\<close>, the first group: what stands between
  the first fence (with an optional \<^verbatim>\<open>json\<close> and white space after it) and the next fence.
  When no fence follows the first one, no later starting point matches either.\<close>

definition fencedMatch :: "string \<Rightarrow> string option" where
  "fencedMatch s =
     (case index_of fence s of
        None \<Rightarrow> None
      | Some i \<Rightarrow>
          (let after = drop (i + 3) s;
               body = dropWhile is_space (if is_json_word (take 4 after) then drop 4 after else after)
           in map_option (\<lambda>j. take j body) (index_of fence body)))"

text \<open>\<^verbatim>\<open>s.replace(/,\s*([}\]])/g, '$1')\<close>: from left to right, a comma followed by optional
  white space and a closing bracket is dropped together with the white space.\<close>

function stripTrailingCommas :: "string \<Rightarrow> string" where
  "stripTrailingCommas [] = []"
| "stripTrailingCommas (c # cs) =
     (if c = CHR '','' then
        (case dropWhile is_space cs of
           [] \<Rightarrow> c # stripTrailingCommas cs
         | b # rest \<Rightarrow>
             (if b = CHR ''}'' \<or> b = CHR '']'' then b # stripTrailingCommas rest
              else c # stripTrailingCommas cs))
      else c # stripTrailingCommas cs)"
  by pat_completeness auto
termination
proof (relation "measure length")
  fix c :: char and cs b rest
  assume "dropWhile is_space cs = b # rest"
  then have "length (b # rest) \<le> length cs"
    using length_dropWhile_le [of is_space cs] by simp
  then show "(rest, c # cs) \<in> measure length" by simp
qed simp_all

subsection \<open>The runtime's JSON functions\<close>

text \<open>
  Modelled from the spec: \<^verbatim>\<open>JSON.parse\<close> and \<^verbatim>\<open>JSON.stringify\<close> belong to the language
  runtime. The specification only says that an attempt "parses successfully as a
  structured object" or not, so the grammar is the standard one of JSON texts: a lexer, and
  a parser with an explicit stack of the containers that are open. Two restrictions: a
  number is an integer literal (a fraction or an exponent is rejected), and a \<^verbatim>\<open>\u\<close> escape
  must denote a code unit below 256. Every member of an object becomes an own property
  (\<^const>\<open>define_property\<close>), also one named \<^verbatim>\<open>__proto__\<close>; a repeated key keeps its place and
  takes the last value.
\<close>

datatype token =
    LBrace | RBrace | LBrack | RBrack | Comma | Colon
  | TString string | TNumber int | TTrue | TFalse | TNull

datatype lex_state =
    LIdle
  | LStr string
  | LEsc string
  | LUni string string
  | LNum string
  | LWord string

definition is_letter :: "char \<Rightarrow> bool" where
  "is_letter c \<longleftrightarrow> (let n = (of_char c :: nat) in 97 \<le> n \<and> n \<le> 122)"

definition hex_value :: "char \<Rightarrow> nat option" where
  "hex_value c =
     (let n = (of_char c :: nat)
      in if 48 \<le> n \<and> n \<le> 57 then Some (n - 48)
         else if 97 \<le> n \<and> n \<le> 102 then Some (n - 87)
         else if 65 \<le> n \<and> n \<le> 70 then Some (n - 55)
         else None)"

text \<open>\<^verbatim>\<open>-?(0|[1-9][0-9]*)\<close>\<close>

definition number_token :: "string \<Rightarrow> token option" where
  "number_token lexeme =
     (let negative = (take 1 lexeme = ''-'');
          ds = (if negative then drop 1 lexeme else lexeme)
      in if ds = [] \<or> \<not> list_all is_digit ds \<or> (1 < length ds \<and> hd ds = CHR ''0'') then None
         else Some (TNumber (if negative then - digits_value ds else digits_value ds)))"

definition word_token :: "string \<Rightarrow> token option" where
  "word_token w =
     (if w = ''true'' then Some TTrue else if w = ''false'' then Some TFalse
      else if w = ''null'' then Some TNull else None)"

text \<open>JSON's own white space is narrower than \<^verbatim>\<open>\s\<close>: space, tab, line feed, carriage
  return.\<close>

definition json_space :: "char \<Rightarrow> bool" where
  "json_space c \<longleftrightarrow> c \<in> set [CHR 0x20, CHR 0x09, CHR 0x0A, CHR 0x0D]"

definition lex_idle :: "char \<Rightarrow> token list \<Rightarrow> (lex_state \<times> token list) option" where
  "lex_idle c out =
     (if json_space c then Some (LIdle, out)
      else if c = CHR ''{'' then Some (LIdle, out @ [LBrace])
      else if c = CHR ''}'' then Some (LIdle, out @ [RBrace])
      else if c = CHR ''['' then Some (LIdle, out @ [LBrack])
      else if c = CHR '']'' then Some (LIdle, out @ [RBrack])
      else if c = CHR '','' then Some (LIdle, out @ [Comma])
      else if c = CHR '':'' then Some (LIdle, out @ [Colon])
      else if c = CHR 0x22 then Some (LStr [], out)
      else if c = CHR ''-'' \<or> is_digit c then Some (LNum [c], out)
      else if is_letter c then Some (LWord [c], out)
      else None)"

definition unescape :: "char \<Rightarrow> char option" where
  "unescape e =
     (if e = CHR 0x22 \<or> e = CHR 0x5C \<or> e = CHR ''/'' then Some e
      else if e = CHR ''b'' then Some (CHR 0x08)
      else if e = CHR ''f'' then Some (CHR 0x0C)
      else if e = CHR ''n'' then Some (CHR 0x0A)
      else if e = CHR ''r'' then Some (CHR 0x0D)
      else if e = CHR ''t'' then Some (CHR 0x09)
      else None)"

fun lex_step :: "char \<Rightarrow> lex_state \<times> token list \<Rightarrow> (lex_state \<times> token list) option" where
  "lex_step c (LIdle, out) = lex_idle c out"
| "lex_step c (LStr acc, out) =
     (if c = CHR 0x22 then Some (LIdle, out @ [TString acc])
      else if c = CHR 0x5C then Some (LEsc acc, out)
      else if (of_char c :: nat) < 32 then None
      else Some (LStr (acc @ [c]), out))"
| "lex_step c (LEsc acc, out) =
     (if c = CHR ''u'' then Some (LUni acc [], out)
      else map_option (\<lambda>d. (LStr (acc @ [d]), out)) (unescape c))"
| "lex_step c (LUni acc ds, out) =
     (case hex_value c of
        None \<Rightarrow> None
      | Some v \<Rightarrow>
          (if length ds < 3 then Some (LUni acc (ds @ [c]), out)
           else (let code = foldl (\<lambda>a d. 16 * a + (case hex_value d of Some x \<Rightarrow> x | None \<Rightarrow> 0)) 0
                              (ds @ [c])
                 in if code < 256 then Some (LStr (acc @ [char_of code]), out) else None)))"
| "lex_step c (LNum acc, out) =
     (if is_digit c then Some (LNum (acc @ [c]), out)
      else (case number_token acc of
              None \<Rightarrow> None
            | Some t \<Rightarrow> lex_idle c (out @ [t])))"
| "lex_step c (LWord acc, out) =
     (if is_letter c then Some (LWord (acc @ [c]), out)
      else (case word_token acc of
              None \<Rightarrow> None
            | Some t \<Rightarrow> lex_idle c (out @ [t])))"

fun lex_run :: "string \<Rightarrow> lex_state \<times> token list \<Rightarrow> (lex_state \<times> token list) option" where
  "lex_run [] st = Some st"
| "lex_run (c # cs) st = (case lex_step c st of None \<Rightarrow> None | Some st' \<Rightarrow> lex_run cs st')"

fun lex_finish :: "lex_state \<times> token list \<Rightarrow> token list option" where
  "lex_finish (LIdle, out) = Some out"
| "lex_finish (LNum acc, out) = map_option (\<lambda>t. out @ [t]) (number_token acc)"
| "lex_finish (LWord acc, out) = map_option (\<lambda>t. out @ [t]) (word_token acc)"
| "lex_finish (_, out) = None"

definition tokens :: "string \<Rightarrow> token list option" where
  "tokens s = (case lex_run s (LIdle, []) of None \<Rightarrow> None | Some st \<Rightarrow> lex_finish st)"

text \<open>The parser: the containers that are open, innermost first (an object with the key
  that waits for its value), what may come next, and the finished value.\<close>

datatype open_container =
    OpenArray "json list"
  | OpenObject "(string \<times> json) list" "string option"

datatype expecting =
    Value | ValueOrCloseArray | CommaOrCloseArray
  | KeyOrCloseObject | Key | ColonAfterKey | CommaOrCloseObject | End

type_synonym parse_state = "open_container list \<times> expecting \<times> json option"

fun deliver :: "json \<Rightarrow> open_container list \<Rightarrow> parse_state option" where
  "deliver v [] = Some ([], End, Some v)"
| "deliver v (OpenArray vs # st) = Some (OpenArray (vs @ [v]) # st, CommaOrCloseArray, None)"
| "deliver v (OpenObject es (Some k) # st) =
     Some (OpenObject (define_property k v es) None # st, CommaOrCloseObject, None)"
| "deliver v (OpenObject es None # st) = None"

definition wants_value :: "expecting \<Rightarrow> bool" where
  "wants_value e \<longleftrightarrow> e = Value \<or> e = ValueOrCloseArray"

fun parse_step :: "token \<Rightarrow> parse_state \<Rightarrow> parse_state option" where
  "parse_step LBrace (st, e, r) =
     (if wants_value e then Some (OpenObject [] None # st, KeyOrCloseObject, None) else None)"
| "parse_step LBrack (st, e, r) =
     (if wants_value e then Some (OpenArray [] # st, ValueOrCloseArray, None) else None)"
| "parse_step RBrace (st, e, r) =
     (case st of
        OpenObject es None # st' \<Rightarrow>
          (if e = KeyOrCloseObject \<or> e = CommaOrCloseObject then deliver (JObj es) st' else None)
      | _ \<Rightarrow> None)"
| "parse_step RBrack (st, e, r) =
     (case st of
        OpenArray vs # st' \<Rightarrow>
          (if e = ValueOrCloseArray \<or> e = CommaOrCloseArray then deliver (JArr vs) st' else None)
      | _ \<Rightarrow> None)"
| "parse_step Comma (st, e, r) =
     (if e = CommaOrCloseArray then Some (st, Value, None)
      else if e = CommaOrCloseObject then Some (st, Key, None)
      else None)"
| "parse_step Colon (st, e, r) = (if e = ColonAfterKey then Some (st, Value, None) else None)"
| "parse_step (TString s) (st, e, r) =
     (if wants_value e then deliver (JStr s) st
      else if e = KeyOrCloseObject \<or> e = Key then
        (case st of
           OpenObject es None # st' \<Rightarrow> Some (OpenObject es (Some s) # st', ColonAfterKey, None)
         | _ \<Rightarrow> None)
      else None)"
| "parse_step (TNumber n) (st, e, r) = (if wants_value e then deliver (JNum n) st else None)"
| "parse_step TTrue (st, e, r) = (if wants_value e then deliver (JBool True) st else None)"
| "parse_step TFalse (st, e, r) = (if wants_value e then deliver (JBool False) st else None)"
| "parse_step TNull (st, e, r) = (if wants_value e then deliver JNull st else None)"

fun parse_run :: "token list \<Rightarrow> parse_state \<Rightarrow> parse_state option" where
  "parse_run [] st = Some st"
| "parse_run (t # ts) st = (case parse_step t st of None \<Rightarrow> None | Some st' \<Rightarrow> parse_run ts st')"

definition json_parse :: "string \<Rightarrow> json option" where
  "json_parse s =
     (case tokens s of
        None \<Rightarrow> None
      | Some ts \<Rightarrow>
          (case parse_run ts ([], Value, None) of
             Some ([], End, Some v) \<Rightarrow> Some v
           | _ \<Rightarrow> None))"

text \<open>\<^verbatim>\<open>JSON.stringify\<close> with no indentation.\<close>

fun decimal :: "nat \<Rightarrow> string" where
  "decimal n = (if n < 10 then [char_of (48 + n)] else decimal (n div 10) @ [char_of (48 + n mod 10)])"

definition hex_digit :: "nat \<Rightarrow> char" where
  "hex_digit n = (if n < 10 then char_of (48 + n) else char_of (87 + n))"

definition quote_char :: "char \<Rightarrow> string" where
  "quote_char c =
     (if c = CHR 0x22 then [CHR 0x5C, CHR 0x22]
      else if c = CHR 0x5C then [CHR 0x5C, CHR 0x5C]
      else if c = CHR 0x08 then [CHR 0x5C, CHR ''b'']
      else if c = CHR 0x0C then [CHR 0x5C, CHR ''f'']
      else if c = CHR 0x0A then [CHR 0x5C, CHR ''n'']
      else if c = CHR 0x0D then [CHR 0x5C, CHR ''r'']
      else if c = CHR 0x09 then [CHR 0x5C, CHR ''t'']
      else if (of_char c :: nat) < 32 then
        [CHR 0x5C, CHR ''u'', CHR ''0'', CHR ''0'',
         hex_digit ((of_char c :: nat) div 16), hex_digit ((of_char c :: nat) mod 16)]
      else [c])"

definition quote :: "string \<Rightarrow> string" where
  "quote s = CHR 0x22 # concat (map quote_char s) @ [CHR 0x22]"

fun commas :: "string list \<Rightarrow> string" where
  "commas [] = []"
| "commas [x] = x"
| "commas (x # y # ys) = x @ CHR '','' # commas (y # ys)"

fun json_stringify :: "json \<Rightarrow> string" where
  "json_stringify JNull = ''null''"
| "json_stringify (JBool b) = (if b then ''true'' else ''false'')"
| "json_stringify (JNum n) = (if n < 0 then CHR ''-'' # decimal (nat (- n)) else decimal (nat n))"
| "json_stringify (JStr s) = quote s"
| "json_stringify (JArr vs) = CHR ''['' # commas (map json_stringify vs) @ [CHR '']'']"
| "json_stringify (JObj es) =
     CHR ''{'' # commas (map (\<lambda>(k, v). quote k @ CHR '':'' # json_stringify v) es) @ [CHR ''}'']"

subsection \<open>extractJsonObject\<close>

text \<open>\<^verbatim>\<open>if (parsed)\<close>: \<^verbatim>\<open>undefined\<close> (the parse threw), \<^verbatim>\<open>null\<close>, \<^verbatim>\<open>false\<close>, \<^verbatim>\<open>0\<close> and the empty
  string are falsy.\<close>

fun truthy_value :: "json \<Rightarrow> bool" where
  "truthy_value JNull = False"
| "truthy_value (JBool b) = b"
| "truthy_value (JNum n) = (n \<noteq> 0)"
| "truthy_value (JStr s) = (s \<noteq> [])"
| "truthy_value _ = True"

definition tryParse :: "string \<Rightarrow> json option" where
  "tryParse s = json_parse (stripTrailingCommas s)"

text \<open>One attempt: \<^verbatim>\<open>const parsed = tryParse(s); if (parsed) return JSON.stringify(parsed)\<close>;
  \<open>None\<close> when the function goes on to the next step.\<close>

definition attempt :: "string \<Rightarrow> string option" where
  "attempt s =
     (case tryParse s of
        None \<Rightarrow> None
      | Some parsed \<Rightarrow> if truthy_value parsed then Some (json_stringify parsed) else None)"

definition clean :: "string \<Rightarrow> string" where
  "clean text =
     (let cleaned = trim (strip_trailing_fence (strip_leading_fence text))
      in case fencedMatch cleaned of
           None \<Rightarrow> cleaned
         | Some inner \<Rightarrow> if inner \<noteq> [] then trim inner else cleaned)"

text \<open>The loop of the last step, over the characters with their positions.\<close>

record scan =
  stack :: "nat list"
  bestStart :: "nat option"
  bestEnd :: "nat option"

definition scan_char :: "scan \<Rightarrow> nat \<times> char \<Rightarrow> scan" where
  "scan_char sc = (\<lambda>(i, ch).
     if ch = CHR ''{'' then
       (let sc1 = sc\<lparr>stack := stack sc @ [i]\<rparr>
        in if length (stack sc1) = 1 \<and> bestStart sc1 = None then sc1\<lparr>bestStart := Some i\<rparr>
           else sc1)
     else if ch = CHR ''}'' then
       (if stack sc \<noteq> [] then
          (let sc1 = sc\<lparr>stack := butlast (stack sc)\<rparr>
           in if length (stack sc1) = 0 then sc1\<lparr>bestEnd := Some i\<rparr> else sc1)
        else sc)
     else sc)"

definition scan_braces :: "string \<Rightarrow> scan" where
  "scan_braces cleaned =
     foldl scan_char \<lparr>stack = [], bestStart = None, bestEnd = None\<rparr>
       (zip [0 ..< length cleaned] cleaned)"

text \<open>The text handed to the parser by the last step, if any.\<close>

definition last_resort_candidate :: "string \<Rightarrow> string option" where
  "last_resort_candidate cleaned =
     (case (bestStart (scan_braces cleaned), bestEnd (scan_braces cleaned)) of
        (Some a, Some b) \<Rightarrow> Some (slice a (b + 1) cleaned)
      | _ \<Rightarrow> None)"

definition first_attempt :: "string \<Rightarrow> string option" where
  "first_attempt cleaned =
     (if take 1 cleaned = ''{'' \<and> CHR ''}'' \<in> set cleaned then attempt cleaned else None)"

definition second_attempt :: "string \<Rightarrow> string option" where
  "second_attempt cleaned =
     (case (index_of ''{'' cleaned, last_index_of (CHR ''}'') cleaned) of
        (Some firstBrace, Some lastBrace) \<Rightarrow>
          if firstBrace < lastBrace then attempt (slice firstBrace (lastBrace + 1) cleaned)
          else None
      | _ \<Rightarrow> None)"

definition third_attempt :: "string \<Rightarrow> string option" where
  "third_attempt cleaned =
     (case last_resort_candidate cleaned of None \<Rightarrow> None | Some candidate \<Rightarrow> attempt candidate)"

definition extractJsonObject :: "string \<Rightarrow> string option" where
  "extractJsonObject text =
     (if text = [] then None
      else (let cleaned = clean text
            in case first_attempt cleaned of
                 Some r \<Rightarrow> Some r
               | None \<Rightarrow>
                   (case second_attempt cleaned of
                      Some r \<Rightarrow> Some r
                    | None \<Rightarrow> third_attempt cleaned)))"

text \<open>
  The span that the specification describes for the last step, in its words: scan
  character by character tracking the nesting depth, and record the span of the first
  top-level balanced region, which ends where the depth first returns to zero.
\<close>

fun close_of_region :: "nat \<Rightarrow> nat \<Rightarrow> string \<Rightarrow> nat option" where
  "close_of_region depth i [] = None"
| "close_of_region depth i (c # cs) =
     (if c = CHR ''{'' then close_of_region (Suc depth) (Suc i) cs
      else if c = CHR ''}'' then
        (if depth = 1 then Some i else close_of_region (depth - 1) (Suc i) cs)
      else close_of_region depth (Suc i) cs)"

definition first_balanced_region :: "string \<Rightarrow> string option" where
  "first_balanced_region cleaned =
     (case index_of ''{'' cleaned of
        None \<Rightarrow> None
      | Some a \<Rightarrow>
          map_option (\<lambda>b. slice a (b + 1) cleaned) (close_of_region 0 a (drop a cleaned)))"

text \<open>Auxiliary notions for the proofs about the last step: the nesting depth after a
  prefix, as the loop counts it (a closing brace at depth zero is ignored), and the
  positions where a closing brace brings the depth back to zero.\<close>

definition depth_step :: "nat \<Rightarrow> char \<Rightarrow> nat" where
  "depth_step d ch =
     (if ch = CHR ''{'' then Suc d else if ch = CHR ''}'' then d - 1 else d)"

definition depth_after :: "string \<Rightarrow> nat" where
  "depth_after s = foldl depth_step 0 s"

definition closes_at :: "string \<Rightarrow> nat \<Rightarrow> bool" where
  "closes_at s i \<longleftrightarrow> i < length s \<and> s ! i = CHR ''}'' \<and> depth_after (take i s) = 1"

definition last_close :: "string \<Rightarrow> nat \<Rightarrow> bool" where
  "last_close s b \<longleftrightarrow> closes_at s b \<and> (\<forall>j. b < j \<longrightarrow> \<not> closes_at s j)"

section \<open>Properties of objects\<close>

lemma update_fresh: "k \<notin> fst ` set al \<Longrightarrow> AList.update k v al = al @ [(k, v)]"
  by (induction al) auto


lemma set_insert_index: "set (insert_index n k v obj) = insert (k, v) (set obj)"
  by (induction obj) (auto split: option.splits)




lemma set_update_has: "(k, v) \<in> set (AList.update k v al)"
  by (induction al) auto



lemma set_define_has: "(k, v) \<in> set (define_property k v obj)"
  by (simp add: define_property_def set_insert_index set_update_has split: option.splits)

lemma define_nonempty: "define_property k v obj \<noteq> []"
  using set_define_has [of k v obj] by auto


lemma canonical_Nil [simp]: "canonical []"
  by (simp add: canonical_def)

lemma canonical_Cons:
  "canonical (e # obj) \<longleftrightarrow>
     fst e \<notin> fst ` set obj \<and> (\<forall>k \<in> fst ` set obj. precedes (fst e) k) \<and> canonical obj"
  by (auto simp: canonical_def)

lemma canonical_keys: "map fst obj = map fst obj' \<Longrightarrow> canonical obj = canonical obj'"
  by (simp add: canonical_def)





lemma canonical_filter: "canonical xs \<Longrightarrow> canonical (filter P xs)"
proof (induction xs)
  case Nil
  then show ?case by simp
next
  case (Cons e xs)
  then show ?case by (auto simp: canonical_Cons)
qed

lemma canonical_append_filter:
  assumes "canonical (acc @ xs)"
  shows "canonical (acc @ filter P xs)"
proof -
  have d: "distinct (map fst (acc @ xs))" using assms by (simp add: canonical_def)
  have a: "filter (\<lambda>e. e \<in> set acc \<or> P e) acc = acc" by (simp add: filter_True)
  have b: "filter (\<lambda>e. e \<in> set acc \<or> P e) xs = filter P xs"
  proof (rule filter_cong [OF refl])
    fix e
    assume "e \<in> set xs"
    then have "e \<notin> set acc" using d by (force simp: image_iff)
    then show "(e \<in> set acc \<or> P e) = P e" by simp
  qed
  have "canonical (filter (\<lambda>e. e \<in> set acc \<or> P e) (acc @ xs))"
    using assms by (rule canonical_filter)
  then show ?thesis unfolding filter_append a b .
qed






lemma proper_Nil [simp]: "proper []"
  by (simp add: proper_def)




lemma assign_nonempty: "k \<noteq> ''__proto__'' \<Longrightarrow> assign_string k v obj \<noteq> []"
  by (simp add: assign_string_def define_nonempty)





section \<open>Properties of the normalizer\<close>



















lemma keys_map_entry: "map fst (AList.map_entry k f r) = map fst r"
  by (induction r) auto


lemma keys_put_other: "map fst (put_other b r) = map fst r"
  by (simp add: put_other_def keys_map_entry)

lemma put_missing_absent:
  "url b \<notin> U \<and> title b \<notin> T \<Longrightarrow> put_missing U T b r = put_other b r"
  by (simp add: put_missing_def)

lemma put_missing_present:
  "\<not> (url b \<notin> U \<and> title b \<notin> T) \<Longrightarrow> put_missing U T b r = r"
  by (auto simp: put_missing_def)

lemma keys_put_missing: "map fst (put_missing U T b r) = map fst r"
  by (cases "url b \<notin> U \<and> title b \<notin> T")
    (simp_all add: put_missing_absent put_missing_present keys_put_other)

lemma keys_fold_put: "map fst (fold (put_missing U T) bs r) = map fst r"
  by (induction bs arbitrary: r) (simp_all add: keys_put_missing)

















lemma has_other_fold_put:
  "''Other'' \<in> fst ` set r \<Longrightarrow> ''Other'' \<in> fst ` set (fold (put_missing U T) bs r)"
  using arg_cong [OF keys_fold_put [of U T bs r], of set] by simp













text \<open>The three conditions of the theorem are each needed. A candidate whose category
  \<^verbatim>\<open>Other\<close> has an entry under the empty title, with one bookmark of the empty title: the
  first pass overwrites that entry, and the second pass misses the bookmark that was found
  by the url of the overwritten entry. A candidate with a category \<^verbatim>\<open>__proto__\<close>: its
  entries become what \<^verbatim>\<open>result\<close> inherits, so \<^verbatim>\<open>result['Other']\<close> is a string, no bucket is
  created, and the first missing bookmark makes the function throw; without bookmarks the
  returned object has no own category, and normalizing it again creates the bucket.\<close>

lemma normalize_twice_differs_overwritten:
  "normalizeCategorizationOutput (JObj [(''Other'', JObj [('''', JStr ''http://a'')])])
     [\<lparr>title = ''A'', url = ''http://a''\<rparr>, \<lparr>title = '''', url = ''http://b''\<rparr>] =
     Inr \<lparr>categories = [(''Other'', [('''', ''http://b'')])], prototype = None\<rparr> \<and>
   normalizeCategorizationOutput (mapping_json [(''Other'', [('''', ''http://b'')])])
     [\<lparr>title = ''A'', url = ''http://a''\<rparr>, \<lparr>title = '''', url = ''http://b''\<rparr>] =
     Inr \<lparr>categories = [(''Other'', [('''', ''http://b''), (''A'', ''http://a'')])],
          prototype = None\<rparr>"
  by code_simp

lemma normalize_with_prototype:
  "normalizeCategorizationOutput (JObj [(''__proto__'', JObj [(''Other'', JStr ''http://x'')])])
     [\<lparr>title = ''A'', url = ''http://a''\<rparr>] = Inl TypeError \<and>
   normalizeCategorizationOutput (JObj [(''__proto__'', JObj [(''Other'', JStr ''http://x'')])]) [] =
     Inr \<lparr>categories = [], prototype = Some [(''Other'', ''http://x'')]\<rparr> \<and>
   normalizeCategorizationOutput (mapping_json []) [] =
     Inr \<lparr>categories = [(''Other'', [])], prototype = None\<rparr>"
  by code_simp

text \<open>
  Claim C1 at a failing input. The model answers with the one input bookmark filed under
  two categories; the normalizer keeps both entries, so the bookmark occurs twice in the
  result, where the claim (and the comment above the function) says exactly once.
\<close>

theorem normalize_repeats_bookmark:
  "normalizeCategorizationOutput
     (JObj [(''Cat1'', JObj [(''A'', JStr ''http://a'')]),
            (''Cat2'', JObj [(''A'', JStr ''http://a'')])])
     [\<lparr>title = ''A'', url = ''http://a''\<rparr>] =
   Inr \<lparr>categories =
          [(''Cat1'', [(''A'', ''http://a'')]), (''Cat2'', [(''A'', ''http://a'')]), (''Other'', [])],
        prototype = None\<rparr> \<and>
   occurrences \<lparr>title = ''A'', url = ''http://a''\<rparr>
     [(''Cat1'', [(''A'', ''http://a'')]), (''Cat2'', [(''A'', ''http://a'')]), (''Other'', [])] = 2"
  by code_simp

text \<open>The other way the same claim fails: a candidate entry with the bookmark's title but
  another url counts as the bookmark being present, and the bookmark itself is nowhere in
  the result.\<close>

lemma normalize_loses_bookmark:
  "normalizeCategorizationOutput (JObj [(''Cat1'', JObj [(''A'', JStr ''http://other'')])])
     [\<lparr>title = ''A'', url = ''http://a''\<rparr>] =
   Inr \<lparr>categories = [(''Cat1'', [(''A'', ''http://other'')]), (''Other'', [])], prototype = None\<rparr> \<and>
   occurrences \<lparr>title = ''A'', url = ''http://a''\<rparr>
     [(''Cat1'', [(''A'', ''http://other'')]), (''Other'', [])] = 0"
  by code_simp
section \<open>Properties of the store, the snapshot and the applier\<close>

lemma forest_ids_Nil [simp]: "forest_ids [] = []"
  by (simp add: forest_ids_def)

lemma forest_ids_Cons [simp]: "forest_ids (n # ns) = ids_of n @ forest_ids ns"
  by (simp add: forest_ids_def)

lemma forest_ids_append [simp]: "forest_ids (ms @ ns) = forest_ids ms @ forest_ids ns"
  by (simp add: forest_ids_def)

lemma ids_of_BNode [simp]: "ids_of (BNode i t u cs) = i # forest_ids cs"
  by (simp add: forest_ids_def)

declare ids_of.simps [simp del]

lemma remove_id_absent: "p \<notin> set (forest_ids ns) \<Longrightarrow> remove_id p ns = ns"
  by (induction p ns rule: remove_id.induct) auto

lemma modify_children_absent: "p \<notin> set (ids_of n) \<Longrightarrow> modify_children p f n = n"
proof (induction n)
  case (BNode i t u cs)
  have "map (modify_children p f) cs = cs"
  proof (rule map_idI)
    fix c assume c: "c \<in> set cs"
    then have "p \<notin> set (ids_of c)" using BNode.prems by (auto simp: forest_ids_def)
    then show "modify_children p f c = c" using BNode.IH c by simp
  qed
  then show ?case using BNode.prems by simp
qed

lemma map_modify_children_absent:
  "p \<notin> set (forest_ids ns) \<Longrightarrow> map (modify_children p f) ns = ns"
  by (rule map_idI) (auto simp: forest_ids_def modify_children_absent)

lemma find_node_iff: "find_node p ns \<noteq> None \<longleftrightarrow> p \<in> set (forest_ids ns)"
  by (induction p ns rule: find_node.induct) (auto split: option.splits)

lemma children_of_has_node: "has_node p s \<Longrightarrow> \<exists>cs. children_of p s = Some cs"
  using find_node_iff [of p "bar s @ other s"]
  by (auto simp: has_node_def children_of_def store_ids_def)

lemma modify_children_comp:
  "modify_children p f (modify_children p g n) = modify_children p (f \<circ> g) n"
  by (induction n) auto

lemma on_children_comp: "on_children p f (on_children p g s) = on_children p (f \<circ> g) s"
  by (simp add: on_children_def modify_children_comp comp_def)

lemma modify_fresh_child:
  assumes "k \<notin> set (ids_of n)" "k \<noteq> p" "k \<notin> set (forest_ids kids)"
  shows "modify_children k f (modify_children p (\<lambda>cs. cs @ [BNode k t u kids]) n) =
         modify_children p (\<lambda>cs. cs @ [BNode k t u (f kids)]) n"
  using assms(1)
proof (induction n)
  case (BNode i t' u' cs)
  have ik: "i \<noteq> k" and kcs: "k \<notin> set (forest_ids cs)" using BNode.prems by auto
  show ?case
  proof (cases "i = p")
    case True
    then show ?thesis using ik kcs assms(2) by (simp add: map_modify_children_absent)
  next
    case False
    have "map (modify_children k f \<circ> modify_children p (\<lambda>cs. cs @ [BNode k t u kids])) cs =
          map (modify_children p (\<lambda>cs. cs @ [BNode k t u (f kids)])) cs"
    proof (rule map_cong [OF refl])
      fix c assume c: "c \<in> set cs"
      then have "k \<notin> set (ids_of c)" using kcs by (auto simp: forest_ids_def)
      then show "(modify_children k f \<circ> modify_children p (\<lambda>cs. cs @ [BNode k t u kids])) c =
          modify_children p (\<lambda>cs. cs @ [BNode k t u (f kids)]) c"
        using BNode.IH c by simp
    qed
    then show ?thesis using False ik by simp
  qed
qed

lemma on_children_fresh_child:
  assumes "k \<notin> set (store_ids s)" "k \<noteq> p" "2 < k" "k \<notin> set (forest_ids kids)"
  shows "on_children k f (on_children p (\<lambda>cs. cs @ [BNode k t u kids]) s) =
         on_children p (\<lambda>cs. cs @ [BNode k t u (f kids)]) s"
proof -
  have kb: "k \<notin> set (forest_ids (bar s))" and ko: "k \<notin> set (forest_ids (other s))"
    using assms(1) by (auto simp: store_ids_def)
  have m: "map (modify_children k f \<circ> modify_children p (\<lambda>cs. cs @ [BNode k t u kids])) ns =
        map (modify_children p (\<lambda>cs. cs @ [BNode k t u (f kids)])) ns"
    if "k \<notin> set (forest_ids ns)" for ns
    using that assms(2,4) by (auto simp: forest_ids_def intro!: modify_fresh_child)
  show ?thesis
    using assms(2,3) kb ko
    by (auto simp: on_children_def map_modify_children_absent m)
qed


lemma ids_modify_append:
  "set (ids_of (modify_children p (\<lambda>cs. cs @ F) n)) =
   set (ids_of n) \<union> (if p \<in> set (ids_of n) then set (forest_ids F) else {})"
proof (induction n)
  case (BNode i t u cs)
  show ?case
  proof (cases "i = p")
    case True
    then show ?thesis by auto
  next
    case False
    have "set (forest_ids (map (modify_children p (\<lambda>cs. cs @ F)) cs)) =
          set (forest_ids cs) \<union> (if p \<in> set (forest_ids cs) then set (forest_ids F) else {})"
      using BNode.IH by (induction cs) (auto split: if_splits)
    then show ?thesis using False by auto
  qed
qed

lemma ids_forest_modify_append:
  "set (forest_ids (map (modify_children p (\<lambda>cs. cs @ F)) ns)) =
   set (forest_ids ns) \<union> (if p \<in> set (forest_ids ns) then set (forest_ids F) else {})"
  by (induction ns) (auto simp: ids_modify_append split: if_splits)

lemma ids_on_children_append:
  "has_node p s \<Longrightarrow>
   set (store_ids (on_children p (\<lambda>cs. cs @ F) s)) = set (store_ids s) \<union> set (forest_ids F)"
  by (auto simp: has_node_def on_children_def store_ids_def ids_forest_modify_append
      split: if_splits)

lemma create_appends:
  "has_node p s \<Longrightarrow>
   createBookmark p t u None s =
     (Inr (BNode (next_id s) t u []),
      (on_children p (\<lambda>cs. cs @ [BNode (next_id s) t u []]) s)\<lparr>next_id := Suc (next_id s)\<rparr>)"
  using children_of_has_node [of p s] by (auto simp: createBookmark_def Let_def)

lemma next_id_on_children [simp]: "next_id (on_children p f s) = next_id s"
  by (simp add: on_children_def)

lemma on_children_next_id [simp]:
  "on_children p f (s\<lparr>next_id := k\<rparr>) = (on_children p f s)\<lparr>next_id := k\<rparr>"
  by (simp add: on_children_def)

lemma store_ids_next_id [simp]: "store_ids (s\<lparr>next_id := k\<rparr>) = store_ids s"
  by (simp add: store_ids_def)

lemma has_node_next_id [simp]: "has_node p (s\<lparr>next_id := k\<rparr>) = has_node p s"
  by (simp add: has_node_def)

lemma upt_head: "[k ..< Suc (k + n)] = k # [Suc k ..< Suc k + n]"
  by (simp add: upt_conv_Cons)

lemma ids_materialize: "forest_ids (materialize k ns) = [k ..< k + created_count ns]"
proof (induction k ns rule: materialize.induct)
  case (1 k)
  then show ?case by simp
next
  case (2 k t u cs ns)
  show ?case
  proof (cases "truthy u")
    case True
    then show ?thesis using 2(1) upt_head [of k "created_count ns"] by simp
  next
    case False
    have "[Suc k ..< Suc k + created_count cs + created_count ns] =
          [Suc k ..< Suc k + created_count cs] @
            [Suc k + created_count cs ..< Suc k + created_count cs + created_count ns]"
      by (rule upt_add_eq_append) simp
    then show ?thesis
      using False 2(2,3) upt_head [of k "created_count cs + created_count ns"]
      by (simp add: add.assoc)
  qed
qed


lemma modify_children_same: "modify_children p (\<lambda>xs. xs) n = n"
  by (induction n) (auto intro: map_idI)

lemma on_children_same: "on_children p (\<lambda>xs. xs) s = s"
proof -
  have "map (modify_children p (\<lambda>xs. xs)) ns = ns" for ns
    by (rule map_idI) (simp add: modify_children_same)
  then show ?thesis by (simp add: on_children_def)
qed

lemma on_children_append_append:
  "on_children p (\<lambda>xs. xs @ B) (on_children p (\<lambda>xs. xs @ A) s) =
   on_children p (\<lambda>xs. xs @ (A @ B)) s"
  by (simp add: on_children_comp comp_def)

lemma has_node_on_children_append:
  "has_node q s \<Longrightarrow> has_node p s \<Longrightarrow> has_node p (on_children q (\<lambda>xs. xs @ F) s)"
  using ids_on_children_append [of q s F] by (auto simp: has_node_def)

lemma ids_below_append:
  assumes "ids_below s" "has_node q s" "\<forall>i \<in> set (forest_ids F). i < k" "next_id s \<le> k"
  shows "ids_below ((on_children q (\<lambda>xs. xs @ F) s)\<lparr>next_id := k\<rparr>)"
  using assms ids_on_children_append [OF assms(2), of F]
  by (auto simp: ids_below_def)

lemma restore_appends:
  "ids_below s \<Longrightarrow> has_node p s \<Longrightarrow>
   restoreChildren p ns s =
     (None, (on_children p (\<lambda>xs. xs @ materialize (next_id s) ns) s)
              \<lparr>next_id := next_id s + created_count ns\<rparr>)"
proof (induction ns arbitrary: p s rule: measure_induct_rule [of "size_list size"])
  case (less ns)
  show ?case
  proof (cases ns)
    case Nil
    then show ?thesis by (simp add: on_children_same)
  next
    case (Cons n ns')
    obtain t u cs where n: "n = SavedNode t u cs" by (cases n)
    define k where "k = next_id s"
    have fresh: "k \<notin> set (store_ids s)" and k2: "2 < k"
      using less.prems(1) by (auto simp: ids_below_def k_def)
    have kp: "k \<noteq> p" using less.prems fresh k2 by (auto simp: has_node_def)
    show ?thesis
    proof (cases "truthy u")
      case True
      define s1 where "s1 = (on_children p (\<lambda>xs. xs @ [BNode k t u []]) s)\<lparr>next_id := Suc k\<rparr>"
      have c: "createBookmark p t u None s = (Inr (BNode k t u []), s1)"
        using create_appends [OF less.prems(2)] by (simp add: s1_def k_def)
      have b1: "ids_below s1" unfolding s1_def
        using less.prems by (intro ids_below_append) (auto simp: k_def)
      have h1: "has_node p s1" unfolding s1_def
        using less.prems(2) by (simp add: has_node_on_children_append)
      have "restoreChildren p ns' s1 =
          (None, (on_children p (\<lambda>xs. xs @ materialize (next_id s1) ns') s1)
              \<lparr>next_id := next_id s1 + created_count ns'\<rparr>)"
        using b1 h1 by (intro less.IH) (simp add: Cons)
      then show ?thesis using True c
        by (simp add: Cons n s1_def on_children_append_append k_def)
    next
      case False
      define s1 where "s1 = (on_children p (\<lambda>xs. xs @ [BNode k t None []]) s)\<lparr>next_id := Suc k\<rparr>"
      define kids where "kids = materialize (Suc k) cs"
      define k1 where "k1 = Suc k + created_count cs"
      define s2 where "s2 = (on_children p (\<lambda>xs. xs @ [BNode k t None kids]) s)\<lparr>next_id := k1\<rparr>"
      have c: "createBookmark p t None None s = (Inr (BNode k t None []), s1)"
        using create_appends [OF less.prems(2)] by (simp add: s1_def k_def)
      have b1: "ids_below s1" unfolding s1_def
        using less.prems by (intro ids_below_append) (auto simp: k_def)
      have hk: "has_node k s1" unfolding s1_def
        using ids_on_children_append [OF less.prems(2), of "[BNode k t None []]"]
        by (simp add: has_node_def)
      have kid_ids: "forest_ids kids = [Suc k ..< k1]"
        by (simp add: kids_def k1_def ids_materialize)
      have kids: "restoreChildren k cs s1 = (None, s2)"
      proof -
        have "restoreChildren k cs s1 =
          (None, (on_children k (\<lambda>xs. xs @ materialize (next_id s1) cs) s1)
              \<lparr>next_id := next_id s1 + created_count cs\<rparr>)"
          using b1 hk by (intro less.IH) (simp add: Cons n)
        moreover have "on_children k (\<lambda>xs. xs @ kids)
              (on_children p (\<lambda>xs. xs @ [BNode k t None []]) s) =
            on_children p (\<lambda>xs. xs @ [BNode k t None ([] @ kids)]) s"
          using fresh kp k2 by (intro on_children_fresh_child) simp_all
        ultimately show ?thesis by (simp add: s1_def s2_def kids_def k1_def)
      qed
      have b2: "ids_below s2" unfolding s2_def
        using less.prems kid_ids by (intro ids_below_append) (auto simp: k_def k1_def)
      have h2: "has_node p s2" unfolding s2_def
        using less.prems(2) by (simp add: has_node_on_children_append)
      have rest: "restoreChildren p ns' s2 =
          (None, (on_children p (\<lambda>xs. xs @ materialize (next_id s2) ns') s2)
              \<lparr>next_id := next_id s2 + created_count ns'\<rparr>)"
        using b2 h2 by (intro less.IH) (simp add: Cons)
      have fin: "(on_children p (\<lambda>xs. xs @ materialize (next_id s2) ns') s2)
              \<lparr>next_id := next_id s2 + created_count ns'\<rparr> =
          (on_children p (\<lambda>xs. xs @ materialize (next_id s) ns) s)
              \<lparr>next_id := next_id s + created_count ns\<rparr>"
        using False
        by (simp add: Cons n s2_def on_children_append_append k_def k1_def kids_def)
      show ?thesis
      proof (cases "cs = []")
        case True
        have "s2 = s1" using True by (simp add: s1_def s2_def kids_def k1_def)
        then show ?thesis using False c rest fin True by (simp add: Cons n)
      next
        case nonempty: False
        then show ?thesis using False c kids rest fin by (simp add: Cons n)
      qed
    qed
  qed
qed


lemma delete_bar_children:
  "distinct (store_ids s) \<Longrightarrow> bar s = ns \<Longrightarrow>
   for_each (\<lambda>child. removeBookmarkTree (node_id child)) ns s = (None, s\<lparr>bar := []\<rparr>)"
proof (induction ns arbitrary: s)
  case Nil
  then show ?case by simp
next
  case (Cons n ns)
  obtain i t u kids where n: "n = BNode i t u kids" by (cases n)
  have d: "distinct (i # forest_ids kids @ forest_ids ns @ forest_ids (other s))"
    using Cons.prems by (simp add: store_ids_def n)
  have "remove_id i ns = ns" "remove_id i (other s) = other s"
    using d by (auto intro: remove_id_absent)
  then have det: "detach i s = s\<lparr>bar := ns\<rparr>"
    using Cons.prems(2) by (simp add: detach_def n)
  have rm: "removeBookmarkTree i s = (None, s\<lparr>bar := ns\<rparr>)"
    using Cons.prems(2) det by (simp add: removeBookmarkTree_def store_ids_def n)
  have "for_each (\<lambda>child. removeBookmarkTree (node_id child)) ns (s\<lparr>bar := ns\<rparr>) =
        (None, s\<lparr>bar := ns\<rparr>\<lparr>bar := []\<rparr>)"
    using d by (intro Cons.IH) (simp_all add: store_ids_def)
  then show ?case using rm by (simp add: n)
qed

lemma delete_other_children:
  "distinct (store_ids s) \<Longrightarrow> other s = ns \<Longrightarrow>
   for_each (\<lambda>child. removeBookmarkTree (node_id child)) ns s = (None, s\<lparr>other := []\<rparr>)"
proof (induction ns arbitrary: s)
  case Nil
  then show ?case by simp
next
  case (Cons n ns)
  obtain i t u kids where n: "n = BNode i t u kids" by (cases n)
  have d: "distinct (forest_ids (bar s) @ i # forest_ids kids @ forest_ids ns)"
    using Cons.prems by (simp add: store_ids_def n)
  have "remove_id i ns = ns" "remove_id i (bar s) = bar s"
    using d by (auto intro: remove_id_absent)
  then have det: "detach i s = s\<lparr>other := ns\<rparr>"
    using Cons.prems(2) by (simp add: detach_def n)
  have rm: "removeBookmarkTree i s = (None, s\<lparr>other := ns\<rparr>)"
    using Cons.prems(2) det by (simp add: removeBookmarkTree_def store_ids_def n)
  have "for_each (\<lambda>child. removeBookmarkTree (node_id child)) ns (s\<lparr>other := ns\<rparr>) =
        (None, s\<lparr>other := ns\<rparr>\<lparr>other := []\<rparr>)"
    using d by (intro Cons.IH) (auto simp: store_ids_def)
  then show ?case using rm by (simp add: n)
qed

lemma deleteAllChildren_bar:
  "distinct (store_ids s) \<Longrightarrow> deleteAllChildren 1 s = (None, s\<lparr>bar := []\<rparr>)"
  by (simp add: deleteAllChildren_def getChildren_def children_of_def delete_bar_children)

lemma deleteAllChildren_other:
  "distinct (store_ids s) \<Longrightarrow> deleteAllChildren 2 s = (None, s\<lparr>other := []\<rparr>)"
  by (simp add: deleteAllChildren_def getChildren_def children_of_def delete_other_children)

lemma clear_roots_clears:
  assumes "distinct (store_ids s)"
  shows "clear_roots s = (None, s\<lparr>bar := [], other := []\<rparr>)"
proof -
  have a: "deleteAllChildren 1 s = (None, s\<lparr>bar := []\<rparr>)"
    using assms by (rule deleteAllChildren_bar)
  have "distinct (store_ids (s\<lparr>bar := []\<rparr>))" using assms by (simp add: store_ids_def)
  then have b: "deleteAllChildren 2 (s\<lparr>bar := []\<rparr>) = (None, s\<lparr>bar := []\<rparr>\<lparr>other := []\<rparr>)"
    by (rule deleteAllChildren_other)
  show ?thesis using a b by (simp add: clear_roots_def)
qed

lemma snapshot_materialize:
  "\<forall>n \<in> set ns. well_formed n \<Longrightarrow> map snapshotNode (materialize k ns) = ns"
proof (induction k ns rule: materialize.induct)
  case (1 k)
  then show ?case by simp
next
  case (2 k t u cs ns)
  show ?case
  proof (cases "truthy u")
    case True
    then show ?thesis using 2(1) 2(4) by (cases u) auto
  next
    case False
    then show ?thesis using 2(2,3) 2(4) by (cases u) auto
  qed
qed

lemma snapshotChildren_bar: "snapshotChildren (Suc 0) s = Inr (map snapshotNode (bar s))"
  by (simp add: snapshotChildren_def getSubTree_def)

lemma snapshotChildren_other: "snapshotChildren 2 s = Inr (map snapshotNode (other s))"
  by (simp add: snapshotChildren_def getSubTree_def)


lemma ids_entry_nodes: "forest_ids (entry_nodes k m) = [k ..< k + length m]"
proof (induction k m rule: entry_nodes.induct)
  case (1 k)
  then show ?case by simp
next
  case (2 k t u es)
  then show ?case using upt_head [of k "length es"] by simp
qed

lemma create_entries_appends:
  "ids_below s \<Longrightarrow> has_node f s \<Longrightarrow>
   create_entries f m s =
     (None, (on_children f (\<lambda>xs. xs @ entry_nodes (next_id s) m) s)
              \<lparr>next_id := next_id s + length m\<rparr>)"
proof (induction m arbitrary: s)
  case Nil
  then show ?case by (simp add: create_entries_def on_children_same)
next
  case (Cons e es)
  obtain t u where e: "e = (t, u)" by (cases e)
  define k where "k = next_id s"
  define s1 where "s1 = (on_children f (\<lambda>xs. xs @ [BNode k t (Some u) []]) s)\<lparr>next_id := Suc k\<rparr>"
  have c: "createBookmark f t (Some u) None s = (Inr (BNode k t (Some u) []), s1)"
    using create_appends [OF Cons.prems(2)] by (simp add: s1_def k_def)
  have b1: "ids_below s1" unfolding s1_def
    using Cons.prems by (intro ids_below_append) (auto simp: k_def)
  have h1: "has_node f s1" unfolding s1_def
    using Cons.prems(2) by (simp add: has_node_on_children_append)
  have "create_entries f es s1 =
     (None, (on_children f (\<lambda>xs. xs @ entry_nodes (next_id s1) es) s1)
              \<lparr>next_id := next_id s1 + length es\<rparr>)"
    using b1 h1 by (rule Cons.IH)
  then show ?case using c
    by (simp add: create_entries_def e s1_def on_children_append_append k_def)
qed

lemma create_category_appends:
  assumes "ids_below s"
  shows "create_category (c, m) s =
     (None, s\<lparr>bar := bar s @ [BNode (next_id s) c None (entry_nodes (Suc (next_id s)) m)],
              next_id := Suc (next_id s) + length m\<rparr>)"
proof -
  define k where "k = next_id s"
  define s1 where "s1 = (on_children 1 (\<lambda>xs. xs @ [BNode k c None []]) s)\<lparr>next_id := Suc k\<rparr>"
  have fresh: "k \<notin> set (store_ids s)" and k2: "2 < k"
    using assms by (auto simp: ids_below_def k_def)
  have r: "has_node 1 s" by (simp add: has_node_def)
  have cr: "createBookmark 1 c None None s = (Inr (BNode k c None []), s1)"
    using create_appends [OF r] by (simp add: s1_def k_def)
  have b1: "ids_below s1" unfolding s1_def
    using assms r by (intro ids_below_append) (auto simp: k_def)
  have hk: "has_node k s1" unfolding s1_def
    using ids_on_children_append [OF r, of "[BNode k c None []]"] by (simp add: has_node_def)
  have "create_entries k m s1 =
     (None, (on_children k (\<lambda>xs. xs @ entry_nodes (next_id s1) m) s1)
              \<lparr>next_id := next_id s1 + length m\<rparr>)"
    using b1 hk by (rule create_entries_appends)
  moreover have "on_children k (\<lambda>xs. xs @ entry_nodes (Suc k) m)
        (on_children 1 (\<lambda>xs. xs @ [BNode k c None []]) s) =
      on_children 1 (\<lambda>xs. xs @ [BNode k c None ([] @ entry_nodes (Suc k) m)]) s"
    using fresh k2 by (intro on_children_fresh_child) simp_all
  ultimately have "create_entries k m s1 =
     (None, (on_children 1 (\<lambda>xs. xs @ [BNode k c None (entry_nodes (Suc k) m)]) s)
              \<lparr>next_id := Suc k + length m\<rparr>)"
    by (simp add: s1_def)
  then show ?thesis using cr by (simp add: create_category_def k_def on_children_def)
qed

lemma ids_category_nodes:
  "forest_ids (category_nodes k cats) = [k ..< k + category_count cats]"
proof (induction k cats rule: category_nodes.induct)
  case (1 k)
  then show ?case by simp
next
  case (2 k c m rest)
  have "[Suc k ..< Suc k + length m + category_count rest] =
        [Suc k ..< Suc k + length m] @ [Suc k + length m ..< Suc k + length m + category_count rest]"
    by (rule upt_add_eq_append) simp
  then show ?case
    using 2 upt_head [of k "length m + category_count rest"]
    by (simp add: ids_entry_nodes add.assoc)
qed

lemma recreate_appends:
  "ids_below s \<Longrightarrow>
   recreate cats s =
     (None, s\<lparr>bar := bar s @ category_nodes (next_id s) cats,
              next_id := next_id s + category_count cats\<rparr>)"
proof (induction cats arbitrary: s)
  case Nil
  then show ?case by (simp add: recreate_def)
next
  case (Cons cat cats)
  obtain c m where cat: "cat = (c, m)" by (cases cat)
  define k where "k = next_id s"
  define s1 where "s1 = s\<lparr>bar := bar s @ [BNode k c None (entry_nodes (Suc k) m)],
              next_id := Suc k + length m\<rparr>"
  have c1: "create_category (c, m) s = (None, s1)"
    using create_category_appends [OF Cons.prems] by (simp add: s1_def k_def)
  have up: "i < next_id s \<Longrightarrow> i < Suc (next_id s + length m)" for i
    by simp
  have b1: "ids_below s1"
    using Cons.prems
    by (auto simp: ids_below_def s1_def store_ids_def ids_entry_nodes k_def intro: up)
  have "recreate cats s1 =
     (None, s1\<lparr>bar := bar s1 @ category_nodes (next_id s1) cats,
              next_id := next_id s1 + category_count cats\<rparr>)"
    using b1 by (rule Cons.IH)
  then show ?case using c1 by (simp add: recreate_def cat s1_def k_def)
qed

lemma snapshot_entry_nodes:
  "map snapshotNode (entry_nodes k m) = map (\<lambda>(t, u). SavedNode t (Some u) []) m"
  by (induction k m rule: entry_nodes.induct) simp_all

lemma snapshot_category_nodes:
  "map snapshotNode (category_nodes k cats) = map category_saved cats"
  by (induction k cats rule: category_nodes.induct)
     (simp_all add: category_saved_def snapshot_entry_nodes)


lemma store_ok_parts:
  assumes "store_ok s"
  shows "distinct (store_ids s)" "ids_below s" "2 < next_id s"
    "\<forall>n \<in> set (map snapshotNode (bar s)). well_formed n"
    "\<forall>n \<in> set (map snapshotNode (other s)). well_formed n"
  using assms by (auto simp: store_ok_def ids_below_def)

lemma apply_result:
  assumes "store_ok s" "structure_for ui = Some m"
  shows "handleApplyChanges (ui, s) =
    (ui\<lparr>bookmarkBackup := Some \<lparr>backup_bar = map snapshotNode (bar s),
                                  backup_other = map snapshotNode (other s)\<rparr>,
        hasAppliedChanges := True, showPreview := False, bookmarkError := None\<rparr>,
     s\<lparr>bar := category_nodes (next_id s) m, other := [],
       next_id := next_id s + category_count m\<rparr>)"
proof -
  have cl: "clear_roots s = (None, s\<lparr>bar := [], other := []\<rparr>)"
    using store_ok_parts(1) [OF assms(1)] by (rule clear_roots_clears)
  have "ids_below (s\<lparr>bar := [], other := []\<rparr>)"
    using store_ok_parts(3) [OF assms(1)] by (simp add: ids_below_def store_ids_def)
  then have "recreate m (s\<lparr>bar := [], other := []\<rparr>) =
      (None, s\<lparr>bar := [], other := []\<rparr>
         \<lparr>bar := bar (s\<lparr>bar := [], other := []\<rparr>) @
                   category_nodes (next_id (s\<lparr>bar := [], other := []\<rparr>)) m,
          next_id := next_id (s\<lparr>bar := [], other := []\<rparr>) + category_count m\<rparr>)"
    by (rule recreate_appends)
  then have re: "recreate m (s\<lparr>bar := [], other := []\<rparr>) =
      (None, s\<lparr>bar := category_nodes (next_id s) m, other := [],
              next_id := next_id s + category_count m\<rparr>)"
    by simp
  show ?thesis
    using assms(2) cl re
    by (simp add: handleApplyChanges_def snapshotChildren_bar snapshotChildren_other)
qed

lemma undo_result:
  assumes "distinct (store_ids s)" "2 < next_id s" "bookmarkBackup ui = Some b"
  shows "handleUndoChanges (ui, s) =
    (ui\<lparr>hasAppliedChanges := False, bookmarkBackup := None, bookmarkError := None\<rparr>,
     s\<lparr>bar := materialize (next_id s) (backup_bar b),
       other := materialize (next_id s + created_count (backup_bar b)) (backup_other b),
       next_id := next_id s + created_count (backup_bar b) + created_count (backup_other b)\<rparr>)"
proof -
  define s1 where "s1 = s\<lparr>bar := [], other := []\<rparr>"
  define s2 where "s2 = s\<lparr>bar := materialize (next_id s) (backup_bar b), other := [],
       next_id := next_id s + created_count (backup_bar b)\<rparr>"
  have cl: "clear_roots s = (None, s1)"
    using assms(1) by (simp add: clear_roots_clears s1_def)
  have b1: "ids_below s1" using assms(2) by (simp add: ids_below_def store_ids_def s1_def)
  have "restoreChildren 1 (backup_bar b) s1 =
     (None, (on_children 1 (\<lambda>xs. xs @ materialize (next_id s1) (backup_bar b)) s1)
              \<lparr>next_id := next_id s1 + created_count (backup_bar b)\<rparr>)"
    using b1 by (intro restore_appends) (simp_all add: has_node_def)
  then have r1: "restoreChildren 1 (backup_bar b) s1 = (None, s2)"
    by (simp add: on_children_def s1_def s2_def)
  have b2: "ids_below s2"
    using assms(2) by (auto simp: ids_below_def store_ids_def s2_def ids_materialize)
  have "restoreChildren 2 (backup_other b) s2 =
     (None, (on_children 2 (\<lambda>xs. xs @ materialize (next_id s2) (backup_other b)) s2)
              \<lparr>next_id := next_id s2 + created_count (backup_other b)\<rparr>)"
    using b2 by (intro restore_appends) (simp_all add: has_node_def)
  then have r2: "restoreChildren 2 (backup_other b) s2 =
     (None, s\<lparr>bar := materialize (next_id s) (backup_bar b),
       other := materialize (next_id s + created_count (backup_bar b)) (backup_other b),
       next_id := next_id s + created_count (backup_bar b) + created_count (backup_other b)\<rparr>)"
    by (simp add: on_children_def s2_def)
  show ?thesis using assms(3) cl r1 r2 by (simp add: handleUndoChanges_def)
qed

lemma example_store_ok: "store_ok example_store"
  by (simp add: store_ok_def example_store_def store_ids_def)

text \<open>
  Claim C10. On a store that keeps its guarantees, forward Apply succeeds; afterwards the
  bookmarks bar holds exactly one folder per category, in the order of the mapping, each
  with one bookmark per entry in the order of the entries, and the other-bookmarks root
  has no children.
\<close>

theorem apply_creates_under_bar:
  assumes "store_ok s" and "structure_for ui = Some m"
  shows "structure_of (snd (handleApplyChanges (ui, s))) = (map category_saved m, []) \<and>
         bookmarkError (fst (handleApplyChanges (ui, s))) = None \<and>
         hasAppliedChanges (fst (handleApplyChanges (ui, s)))"
  using apply_result [OF assms] by (simp add: structure_of_def snapshot_category_nodes)

theorem apply_creates_under_bar_witness:
  "store_ok example_store \<and> structure_for example_sessions = Some example_mapping \<and>
   structure_of (snd (handleApplyChanges (example_sessions, example_store))) =
     ([SavedNode ''Cat1'' None [SavedNode ''A'' (Some ''http://a'') []],
       SavedNode ''Other'' None [SavedNode ''B'' (Some ''http://b'') []]], [])"
proof -
  have m: "structure_for example_sessions = Some example_mapping"
    by (simp add: structure_for_def example_sessions_def)
  show ?thesis
    using apply_creates_under_bar [OF example_store_ok m] example_store_ok m
    by (simp add: example_mapping_def category_saved_def)
qed



text \<open>
  Claim C2, the part the code provides. Forward Apply followed by the component's Undo
  leaves under both roots the structure that was there before Apply: the same titles, urls,
  order and nesting, on nodes with new identifiers.
\<close>

theorem apply_then_undo_restores:
  assumes "store_ok s" and "structure_for ui = Some m"
  shows "structure_of (snd (handleUndoChanges (handleApplyChanges (ui, s)))) = structure_of s"
proof -
  define ui1 where "ui1 = fst (handleApplyChanges (ui, s))"
  define s1 where "s1 = snd (handleApplyChanges (ui, s))"
  define b where "b = \<lparr>backup_bar = map snapshotNode (bar s),
                       backup_other = map snapshotNode (other s)\<rparr>"
  have s1: "s1 = s\<lparr>bar := category_nodes (next_id s) m, other := [],
       next_id := next_id s + category_count m\<rparr>"
    and ui1: "bookmarkBackup ui1 = Some b"
    using apply_result [OF assms] by (simp_all add: s1_def ui1_def b_def)
  have d: "distinct (store_ids s1)" by (simp add: s1 store_ids_def ids_category_nodes)
  have n: "2 < next_id s1" using store_ok_parts(3) [OF assms(1)] by (simp add: s1)
  have wb: "\<forall>n \<in> set (backup_bar b). well_formed n"
    and wo: "\<forall>n \<in> set (backup_other b). well_formed n"
    using store_ok_parts(4,5) [OF assms(1)] by (simp_all add: b_def)
  have "structure_of (snd (handleUndoChanges (ui1, s1))) = (backup_bar b, backup_other b)"
    using undo_result [OF d n ui1] snapshot_materialize [OF wb] snapshot_materialize [OF wo]
    by (simp add: structure_of_def)
  then show ?thesis by (simp add: ui1_def s1_def b_def structure_of_def)
qed

theorem apply_then_undo_restores_witness:
  "store_ok example_store \<and> structure_for example_sessions = Some example_mapping \<and>
   structure_of (snd (handleUndoChanges (handleApplyChanges (example_sessions, example_store)))) =
     ([SavedNode ''A'' (Some ''http://a'') [],
       SavedNode ''F'' None [SavedNode ''B'' (Some ''http://b'') [], SavedNode ''G'' None []]],
      [SavedNode ''C'' (Some ''http://c'') []])"
proof -
  have m: "structure_for example_sessions = Some example_mapping"
    by (simp add: structure_for_def example_sessions_def)
  show ?thesis
    using apply_then_undo_restores [OF example_store_ok m] example_store_ok m
    by (simp add: structure_of_def example_store_def)
qed

text \<open>
  Claim C2 as stated fails in its second half. Apply records no frame and Undo discards the
  backup, so the hook's redo stack is empty and \<^verbatim>\<open>performRedo\<close> does nothing. Even with a
  frame on the redo stack that records where Apply put the bookmarks, the redo handler moves
  nodes by identifier, those identifiers went with the clearing done by Undo, the handler
  throws, and the tree stays the one from before Apply.
\<close>

theorem redo_after_undo_keeps_old_tree:
  "structure_of (snd (performRedo (\<lparr>undoStack = [], redoStack = []\<rparr>,
      snd (handleUndoChanges (handleApplyChanges (example_sessions, example_store)))))) \<noteq>
   structure_of (snd (handleApplyChanges (example_sessions, example_store))) \<and>
   structure_of (snd (performRedo (\<lparr>undoStack = [], redoStack = [applied_frame]\<rparr>,
      snd (handleUndoChanges (handleApplyChanges (example_sessions, example_store)))))) \<noteq>
   structure_of (snd (handleApplyChanges (example_sessions, example_store)))"
  by code_simp

section \<open>Properties of the undo and redo stacks\<close>

lemma frames_held_performUndo: "frames_held (performUndo st) = frames_held st"
proof (cases st)
  case (Pair h s)
  show ?thesis
  proof (cases "undoStack h")
    case Nil
    then show ?thesis using Pair by (simp add: performUndo_def canUndo_def)
  next
    case (Cons f rest)
    then show ?thesis using Pair
      by (cases "applyUndoFrame f s") (auto simp: performUndo_def canUndo_def frames_held_def
          split: option.splits)
  qed
qed

lemma frames_held_performRedo: "frames_held (performRedo st) = frames_held st"
proof (cases st)
  case (Pair h s)
  show ?thesis
  proof (cases "redoStack h")
    case Nil
    then show ?thesis using Pair by (simp add: performRedo_def canRedo_def)
  next
    case (Cons f rest)
    then show ?thesis using Pair
      by (cases "applyRedoFrame f s") (auto simp: performRedo_def canRedo_def frames_held_def
          split: option.splits)
  qed
qed

lemma frames_held_invokes: "frames_held (fold invoke ops st) = frames_held st"
proof (induction ops arbitrary: st)
  case Nil
  then show ?case by simp
next
  case (Cons op ops)
  then show ?case
    by (cases op) (simp_all add: frames_held_performUndo frames_held_performRedo)
qed



lemma pending_start_undo:
  "undoStack h \<noteq> [] \<Longrightarrow>
   pending (start_performUndo h) = pending h @ [Undoing (hd (undoStack h))] \<and>
   undoStack (start_performUndo h) = undoStack h"
  by (cases "undoStack h") (simp_all add: start_performUndo_def)

lemma pending_start_redo:
  "redoStack h \<noteq> [] \<Longrightarrow>
   pending (start_performRedo h) = pending h @ [Redoing (hd (redoStack h))] \<and>
   redoStack (start_performRedo h) = redoStack h"
  by (cases "redoStack h") (simp_all add: start_performRedo_def)

lemma repeated_start_undo:
  "undoStack h \<noteq> [] \<Longrightarrow>
   pending ((start_performUndo ^^ n) h) = pending h @ replicate n (Undoing (hd (undoStack h))) \<and>
   undoStack ((start_performUndo ^^ n) h) = undoStack h"
proof (induction n)
  case 0
  then show ?case by simp
next
  case (Suc n)
  then show ?case
    using pending_start_undo [of "(start_performUndo ^^ n) h"]
    by (simp add: replicate_append_same)
qed

lemma repeated_start_redo:
  "redoStack h \<noteq> [] \<Longrightarrow>
   pending ((start_performRedo ^^ n) h) = pending h @ replicate n (Redoing (hd (redoStack h))) \<and>
   redoStack ((start_performRedo ^^ n) h) = redoStack h"
proof (induction n)
  case 0
  then show ?case by simp
next
  case (Suc n)
  then show ?case
    using pending_start_redo [of "(start_performRedo ^^ n) h"]
    by (simp add: replicate_append_same)
qed

text \<open>
  Claim C6. \<^verbatim>\<open>addUndoFrame\<close> puts the new frame (the given frame with a fresh identifier and
  the current time) at the front of \<open>undoStack\<close>, keeps the 49 most recent earlier frames
  behind it, so never more than 50, drops the oldest frame when there were 50, and empties
  \<open>redoStack\<close>. Whatever undo and redo invocations follow, the two stacks together hold
  exactly the new frame and those 49: a frame that was dropped is never handed to a handler
  again.
\<close>

theorem addUndoFrame_bounded:
  "undoStack (addUndoFrame g now f h) =
     f\<lparr>frame_id := g, timestamp := now\<rparr> # take 49 (undoStack h) \<and>
   length (undoStack (addUndoFrame g now f h)) \<le> 50 \<and>
   redoStack (addUndoFrame g now f h) = [] \<and>
   (length (undoStack h) = 50 \<longrightarrow>
      undoStack (addUndoFrame g now f h) =
        f\<lparr>frame_id := g, timestamp := now\<rparr> # butlast (undoStack h)) \<and>
   frames_held (fold invoke ops (addUndoFrame g now f h, s)) =
     insert (f\<lparr>frame_id := g, timestamp := now\<rparr>) (set (take 49 (undoStack h)))"
proof -
  have "length (undoStack h) = 50 \<Longrightarrow> take 49 (undoStack h) = butlast (undoStack h)"
    by (simp add: butlast_conv_take)
  then show ?thesis
    by (simp add: addUndoFrame_def frames_held_invokes) (simp add: frames_held_def)
qed

theorem addUndoFrame_bounded_witness:
  "length (undoStack \<lparr>undoStack = map (\<lambda>i. stale_frame\<lparr>timestamp := i\<rparr>) [0..<50],
                      redoStack = [stale_frame]\<rparr>) = 50 \<and>
   undoStack (addUndoFrame ''undo_3'' 99 applied_frame
     \<lparr>undoStack = map (\<lambda>i. stale_frame\<lparr>timestamp := i\<rparr>) [0..<50], redoStack = [stale_frame]\<rparr>) =
     applied_frame\<lparr>frame_id := ''undo_3'', timestamp := 99\<rparr> #
       map (\<lambda>i. stale_frame\<lparr>timestamp := i\<rparr>) [0..<49] \<and>
   stale_frame\<lparr>timestamp := 49\<rparr> \<notin>
     frames_held (fold invoke [Undo, Undo, Redo]
       (addUndoFrame ''undo_3'' 99 applied_frame
         \<lparr>undoStack = map (\<lambda>i. stale_frame\<lparr>timestamp := i\<rparr>) [0..<50], redoStack = [stale_frame]\<rparr>,
        example_store))"
proof -
  let ?h = "\<lparr>undoStack = map (\<lambda>i. stale_frame\<lparr>timestamp := i\<rparr>) [0..<50], redoStack = [stale_frame]\<rparr>"
  have t: "take 49 (undoStack ?h) = map (\<lambda>i. stale_frame\<lparr>timestamp := i\<rparr>) [0..<49]"
    by (simp add: take_map)
  have n: "stale_frame\<lparr>timestamp := 49\<rparr> \<noteq> applied_frame\<lparr>frame_id := ''undo_3'', timestamp := 99\<rparr>"
    by (simp add: stale_frame_def applied_frame_def)
  have m: "stale_frame\<lparr>timestamp := 49\<rparr> \<notin> set (map (\<lambda>i. stale_frame\<lparr>timestamp := i\<rparr>) [0..<49])"
    by (auto simp: stale_frame_def)
  show ?thesis
    using addUndoFrame_bounded [of "''undo_3''" 99 applied_frame ?h "[Undo, Undo, Redo]" example_store]
      t n m
    by simp
qed

text \<open>
  Claim C9. When the handler chosen by the frame's type throws, \<^verbatim>\<open>performUndo\<close> (and
  likewise \<^verbatim>\<open>performRedo\<close>) leaves both stacks as they were: the frame is neither popped nor
  moved to the other stack. The store is left as the handler left it.
\<close>

theorem failed_handler_keeps_stacks:
  "(undoStack h = frame # rest \<and> applyUndoFrame frame s = (Some e, s1) \<longrightarrow>
      performUndo (h, s) = (h, s1)) \<and>
   (redoStack h = frame # rest \<and> applyRedoFrame frame s = (Some e, s1) \<longrightarrow>
      performRedo (h, s) = (h, s1))"
  by (simp add: performUndo_def performRedo_def canUndo_def canRedo_def)

theorem failed_handler_keeps_stacks_witness:
  "applyUndoFrame stale_frame example_store = (Some Unable_to_move_bookmark, example_store) \<and>
   performUndo (\<lparr>undoStack = [stale_frame, applied_frame], redoStack = [applied_frame]\<rparr>, example_store) =
     (\<lparr>undoStack = [stale_frame, applied_frame], redoStack = [applied_frame]\<rparr>, example_store) \<and>
   applyRedoFrame stale_frame example_store = (Some Unable_to_move_bookmark, example_store) \<and>
   performRedo (\<lparr>undoStack = [applied_frame], redoStack = [stale_frame, applied_frame]\<rparr>, example_store) =
     (\<lparr>undoStack = [applied_frame], redoStack = [stale_frame, applied_frame]\<rparr>, example_store)"
proof -
  have u: "applyUndoFrame stale_frame example_store = (Some Unable_to_move_bookmark, example_store)"
    by code_simp
  have r: "applyRedoFrame stale_frame example_store = (Some Unable_to_move_bookmark, example_store)"
    by code_simp
  show ?thesis
    using u r
      failed_handler_keeps_stacks [of "\<lparr>undoStack = [stale_frame, applied_frame], redoStack = [applied_frame]\<rparr>"
        stale_frame "[applied_frame]" example_store Unable_to_move_bookmark example_store]
      failed_handler_keeps_stacks [of "\<lparr>undoStack = [applied_frame], redoStack = [stale_frame, applied_frame]\<rparr>"
        stale_frame "[applied_frame]" example_store Unable_to_move_bookmark example_store]
    by simp
qed

text \<open>
  Claim C5, as the code has it. The only invocation that returns at once is one that finds
  its stack empty. An invocation that arrives while others are pending is accepted and
  starts the handler of the frame at the front of its stack: after \<open>n\<close> invocations of
  \<^verbatim>\<open>performUndo\<close> in a row, \<open>n\<close> more handlers are pending, all for the same frame.
\<close>

theorem overlapping_invocations_accepted:
  "(undoStack h = [] \<longrightarrow> start_performUndo h = h) \<and>
   (redoStack h = [] \<longrightarrow> start_performRedo h = h) \<and>
   (undoStack h \<noteq> [] \<longrightarrow>
      pending ((start_performUndo ^^ n) h) = pending h @ replicate n (Undoing (hd (undoStack h)))) \<and>
   (redoStack h \<noteq> [] \<longrightarrow>
      pending ((start_performRedo ^^ n) h) = pending h @ replicate n (Redoing (hd (redoStack h))))"
  using repeated_start_undo [of h n] repeated_start_redo [of h n]
  by (simp add: start_performUndo_def start_performRedo_def)

theorem overlapping_invocations_accepted_witness:
  "pending ((start_performUndo ^^ 3)
      \<lparr>undoStack = [stale_frame], redoStack = [], pending = [Redoing applied_frame]\<rparr>) =
     [Redoing applied_frame, Undoing stale_frame, Undoing stale_frame, Undoing stale_frame] \<and>
   start_performRedo \<lparr>undoStack = [stale_frame], redoStack = [], pending = [Redoing applied_frame]\<rparr> =
     \<lparr>undoStack = [stale_frame], redoStack = [], pending = [Redoing applied_frame]\<rparr>"
  using overlapping_invocations_accepted
    [of "\<lparr>undoStack = [stale_frame], redoStack = [], pending = [Redoing applied_frame]\<rparr>" 3]
  by (simp add: numeral_3_eq_3)

text \<open>
  Claim C5 as stated fails: a second \<^verbatim>\<open>performUndo\<close> issued while the first is pending is not
  rejected. Both run the handler of the same frame, and once both handlers have settled two
  frames have left \<open>undoStack\<close> and the one frame is on \<open>redoStack\<close> twice.
\<close>

theorem second_undo_not_rejected:
  "pending (start_performUndo (start_performUndo
      \<lparr>undoStack = [stale_frame, applied_frame], redoStack = [], pending = []\<rparr>)) =
     [Undoing stale_frame, Undoing stale_frame] \<and>
   settle 0 True (settle 0 True (start_performUndo (start_performUndo
      \<lparr>undoStack = [stale_frame, applied_frame], redoStack = [], pending = []\<rparr>))) =
     \<lparr>undoStack = [], redoStack = [stale_frame, stale_frame], pending = []\<rparr>"
  by (simp add: start_performUndo_def settle_def)

section \<open>Properties of the sanitizer\<close>

subsection \<open>The last step\<close>

lemma zip_upt_snoc:
  "zip [0 ..< length (s @ [c])] (s @ [c]) = zip [0 ..< length s] s @ [(length s, c)]"
  by simp

lemma scan_braces_snoc: "scan_braces (s @ [c]) = scan_char (scan_braces s) (length s, c)"
  unfolding scan_braces_def zip_upt_snoc by simp

lemma depth_after_snoc: "depth_after (s @ [c]) = depth_step (depth_after s) c"
  by (simp add: depth_after_def)

lemma index_of_brace_Nil [simp]: "index_of ''{'' [] = None"
  by simp

lemma index_of_brace_Cons:
  "index_of ''{'' (c # cs) = (if c = CHR ''{'' then Some 0 else map_option Suc (index_of ''{'' cs))"
  by simp

lemma index_of_brace_snoc:
  "index_of ''{'' (s @ [c]) =
     (case index_of ''{'' s of
        Some i \<Rightarrow> Some i
      | None \<Rightarrow> if c = CHR ''{'' then Some (length s) else None)"
  by (induction s) (auto simp: index_of_brace_Cons split: option.splits)

lemma butlast_Nil_iff: "butlast xs = [] \<longleftrightarrow> length xs \<le> Suc 0"
  by (cases xs rule: rev_cases) simp_all

lemma stack_depth: "length (stack (scan_braces s)) = depth_after s"
proof (induction s rule: rev_induct)
  case Nil
  then show ?case by (simp add: scan_braces_def depth_after_def)
next
  case (snoc c s)
  then show ?case
    by (auto simp: scan_braces_snoc depth_after_snoc scan_char_def depth_step_def Let_def
        butlast_Nil_iff)
qed

lemma no_brace_depth: "index_of ''{'' s = None \<Longrightarrow> depth_after s = 0"
proof (induction s rule: rev_induct)
  case Nil
  then show ?case by (simp add: depth_after_def)
next
  case (snoc c s)
  then show ?case
    by (auto simp: index_of_brace_snoc depth_after_snoc depth_step_def split: option.splits if_splits)
qed

lemma bestStart_scan: "bestStart (scan_braces s) = index_of ''{'' s"
proof (induction s rule: rev_induct)
  case Nil
  then show ?case by (simp add: scan_braces_def)
next
  case (snoc c s)
  have d: "length (stack (scan_braces s)) = depth_after s" by (rule stack_depth)
  show ?case
  proof (cases "index_of ''{'' s")
    case None
    then have "stack (scan_braces s) = []" using no_brace_depth [OF None] d by simp
    then show ?thesis using snoc None
      by (simp add: scan_braces_snoc index_of_brace_snoc scan_char_def Let_def)
  next
    case (Some i)
    then show ?thesis using snoc
      by (simp add: scan_braces_snoc index_of_brace_snoc scan_char_def Let_def)
  qed
qed

lemma closes_at_snoc:
  "closes_at (s @ [c]) j \<longleftrightarrow>
     closes_at s j \<or> (j = length s \<and> c = CHR ''}'' \<and> depth_after s = 1)"
  by (auto simp: closes_at_def nth_append less_Suc_eq)

lemma last_close_unique: "last_close s b \<Longrightarrow> last_close s b' \<Longrightarrow> b = b'"
  unfolding last_close_def by (metis linorder_neqE_nat)

lemma bestEnd_scan:
  "bestEnd (scan_braces s) = Some b \<longleftrightarrow> last_close s b"
proof (induction s arbitrary: b rule: rev_induct)
  case Nil
  then show ?case by (simp add: scan_braces_def last_close_def closes_at_def)
next
  case (snoc c s)
  have d: "length (stack (scan_braces s)) = depth_after s" by (rule stack_depth)
  show ?case
  proof (cases "c = CHR ''}'' \<and> depth_after s = 1")
    case True
    have ne: "stack (scan_braces s) \<noteq> []" using True d by auto
    have one: "length (butlast (stack (scan_braces s))) = 0" using True d by simp
    have e: "bestEnd (scan_braces (s @ [c])) = Some (length s)"
      using True ne d by (simp add: scan_braces_snoc scan_char_def Let_def butlast_Nil_iff)
    have l: "last_close (s @ [c]) (length s)"
      using True by (auto simp: last_close_def closes_at_snoc) (simp add: closes_at_def)
    show ?thesis using e l last_close_unique by auto
  next
    case False
    have e: "bestEnd (scan_braces (s @ [c])) = bestEnd (scan_braces s)"
    proof (cases "c = CHR ''}''")
      case True
      then have n1: "depth_after s \<noteq> 1" using False by simp
      show ?thesis
      proof (cases "stack (scan_braces s) = []")
        case True
        then show ?thesis using \<open>c = CHR ''}''\<close>
          by (simp add: scan_braces_snoc scan_char_def)
      next
        case False
        then have "0 < depth_after s" using d by (cases "stack (scan_braces s)") auto
        then have "\<not> length (stack (scan_braces s)) \<le> Suc 0" using n1 d by simp
        then show ?thesis using \<open>c = CHR ''}''\<close> False
          by (simp add: scan_braces_snoc scan_char_def Let_def butlast_Nil_iff)
      qed
    next
      case False
      then show ?thesis by (simp add: scan_braces_snoc scan_char_def Let_def)
    qed
    have "last_close (s @ [c]) b \<longleftrightarrow> last_close s b"
      using False by (auto simp: last_close_def closes_at_snoc)
    then show ?thesis using e snoc by simp
  qed
qed

text \<open>
  Claim C8, as the code has it. When the first two attempts give nothing, the result is
  that of the attempt on the last step's candidate; and that candidate is the span from the
  first opening brace to the last position at which a closing brace brings the nesting
  depth back to zero. It covers every top-level balanced region up to that position,
  together with what stands between them.
\<close>

theorem last_resort_span:
  "(text \<noteq> [] \<and> first_attempt (clean text) = None \<and> second_attempt (clean text) = None \<longrightarrow>
      extractJsonObject text =
        (case last_resort_candidate (clean text) of None \<Rightarrow> None | Some c \<Rightarrow> attempt c)) \<and>
   (last_resort_candidate cleaned = Some candidate \<longleftrightarrow>
      (\<exists>a b. index_of ''{'' cleaned = Some a \<and> last_close cleaned b \<and>
             candidate = slice a (b + 1) cleaned))"
proof -
  have "last_resort_candidate cleaned = Some candidate \<longleftrightarrow>
      (\<exists>a b. bestStart (scan_braces cleaned) = Some a \<and> bestEnd (scan_braces cleaned) = Some b \<and>
             candidate = slice a (b + 1) cleaned)"
    by (auto simp: last_resort_candidate_def split: option.splits)
  then show ?thesis
    by (simp add: bestStart_scan bestEnd_scan extractJsonObject_def third_attempt_def)
qed

theorem last_resort_span_witness:
  \<open>first_attempt (clean ''{"a":1} {"b":2}'') = None \<and>
   second_attempt (clean ''{"a":1} {"b":2}'') = None \<and>
   extractJsonObject ''{"a":1} {"b":2}'' = attempt ''{"a":1} {"b":2}'' \<and>
   (\<exists>a b. index_of ''{'' ''{"a":1} {"b":2}'' = Some a \<and> last_close ''{"a":1} {"b":2}'' b \<and>
      ''{"a":1} {"b":2}'' = slice a (b + 1) ''{"a":1} {"b":2}'')\<close>
proof -
  have c: \<open>clean ''{"a":1} {"b":2}'' = ''{"a":1} {"b":2}''\<close> by code_simp
  have f: \<open>first_attempt ''{"a":1} {"b":2}'' = None\<close> by code_simp
  have s: \<open>second_attempt ''{"a":1} {"b":2}'' = None\<close> by code_simp
  have l: \<open>last_resort_candidate ''{"a":1} {"b":2}'' = Some ''{"a":1} {"b":2}''\<close> by code_simp
  show ?thesis
    using last_resort_span [of \<open>''{"a":1} {"b":2}''\<close> \<open>''{"a":1} {"b":2}''\<close>
        \<open>''{"a":1} {"b":2}''\<close>] c f s l
    by simp
qed

text \<open>
  Claim C8 as stated fails: on two objects side by side the first two attempts fail, the
  span of the first top-level balanced region is the first object, which parses, but the
  last step takes the span up to the end of the second object, which does not parse, and
  the sanitizer gives up.
\<close>

theorem last_resort_is_not_first_region:
  \<open>clean ''{"a":1} {"b":2}'' = ''{"a":1} {"b":2}'' \<and>
   first_attempt ''{"a":1} {"b":2}'' = None \<and>
   second_attempt ''{"a":1} {"b":2}'' = None \<and>
   last_resort_candidate ''{"a":1} {"b":2}'' = Some ''{"a":1} {"b":2}'' \<and>
   first_balanced_region ''{"a":1} {"b":2}'' = Some ''{"a":1}'' \<and>
   attempt ''{"a":1}'' = Some ''{"a":1}'' \<and>
   extractJsonObject ''{"a":1} {"b":2}'' = None\<close>
  by code_simp

subsection \<open>Fences, prose and trailing commas\<close>


















lemma all_space_drop: "\<forall>c \<in> set w. is_space c \<Longrightarrow> dropWhile is_space w = []"
  by (simp add: dropWhile_eq_Nil_conv)





end
